theory Spec2Isabelle
  imports Complex_Main "HOL-Library.While_Combinator" "HOL-Library.Product_Lexorder"
    "HOL-Library.Multiset"
begin

section \<open>JavaScript values\<close>

text \<open>
  A JavaScript number is an IEEE double: a finite value, one of the two infinities, or NaN.
  Finite values are idealised as reals; the comparison \<open>a < b\<close> is false as soon as
  one side is NaN.
\<close>

datatype jsnum = NaN | NegInf | Fin real | PosInf

fun js_less :: "jsnum \<Rightarrow> jsnum \<Rightarrow> bool" where
  "js_less NaN _ = False"
| "js_less _ NaN = False"
| "js_less NegInf NegInf = False"
| "js_less NegInf _ = True"
| "js_less (Fin a) (Fin b) = (a < b)"
| "js_less (Fin a) PosInf = True"
| "js_less (Fin a) NegInf = False"
| "js_less PosInf _ = False"

text \<open>
  The property bag of a feature holds JSON scalars: a property is absent
  (\<open>undefined\<close>), \<open>null\<close>, a number or a string.
\<close>

datatype jsval = JUndefined | JNull | JNum jsnum | JStr string

datatype js_error = TypeError

fun js_truthy :: "jsval \<Rightarrow> bool" where
  "js_truthy JUndefined = False"
| "js_truthy JNull = False"
| "js_truthy (JNum NaN) = False"
| "js_truthy (JNum (Fin r)) = (r \<noteq> 0)"
| "js_truthy (JNum _) = True"
| "js_truthy (JStr s) = (s \<noteq> [])"

text \<open>\<open>a || b\<close> and \<open>a ?? b\<close>.\<close>

definition js_or :: "jsval \<Rightarrow> jsval \<Rightarrow> jsval" where
  "js_or a b = (if js_truthy a then a else b)"

fun js_nullish :: "jsval \<Rightarrow> jsval \<Rightarrow> jsval" where
  "js_nullish JUndefined b = b"
| "js_nullish JNull b = b"
| "js_nullish a b = a"

text \<open>
  The geometry helpers of the source (\<open>metersBetween\<close>, \<open>gridKey\<close>, \<open>bearingDeg\<close>,
  \<open>angleDiffDeg\<close>, \<open>mercatorMetersFromLngLat\<close>) are floating-point formulas over
  \<open>Math.cos\<close>, \<open>Math.sqrt\<close>, \<open>Math.atan2\<close>, \<open>Math.log\<close> and \<open>Math.round\<close>; \<open>parseFloat\<close> and the conversion of a number
  to a string are built in. They are pure functions of their arguments and are kept as
  the fields of one record, so every result below holds for whatever they compute.
  \<open>gridKey\<close> is always called with a cell size of 5 metres; its string result is the
  key type \<open>'k\<close>.
\<close>

record latlng =
  lat :: real
  lng :: real

record 'k builtins =
  parseFloat :: "string \<Rightarrow> jsnum"
  numToString :: "jsnum \<Rightarrow> string"
  metersBetween :: "latlng \<Rightarrow> latlng \<Rightarrow> jsnum"
  gridKey :: "latlng \<Rightarrow> 'k"
  bearingDeg :: "latlng \<Rightarrow> latlng \<Rightarrow> jsnum"
  angleDiffDeg :: "jsnum \<Rightarrow> jsnum \<Rightarrow> jsnum"
  mercatorMetersFromLngLat :: "real \<Rightarrow> real \<Rightarrow> real \<times> real"

text \<open>\<open>String(v)\<close>.\<close>

fun js_String :: "('k, 'z) builtins_scheme \<Rightarrow> jsval \<Rightarrow> string" where
  "js_String B JUndefined = ''undefined''"
| "js_String B JNull = ''null''"
| "js_String B (JNum n) = numToString B n"
| "js_String B (JStr s) = s"

text \<open>
  \<open>toNum\<close>: a number is taken as it is, anything else goes through \<open>parseFloat\<close>
  (which reads \<open>undefined\<close> and \<open>null\<close> as NaN); a result that is not finite is \<open>null\<close>.
\<close>

definition toNum :: "('k, 'z) builtins_scheme \<Rightarrow> jsval \<Rightarrow> real option" where
  "toNum B v =
     (let n = (case v of JNum x \<Rightarrow> x | JStr s \<Rightarrow> parseFloat B s | _ \<Rightarrow> NaN)
      in case n of Fin r \<Rightarrow> Some r | _ \<Rightarrow> None)"

definition clamp :: "real \<Rightarrow> real \<Rightarrow> real \<Rightarrow> real" where
  "clamp n a b = max a (min b n)"

definition PIPE_SPEED_MIN_MPS :: real where
  "PIPE_SPEED_MIN_MPS = 0.2"

definition PIPE_SPEED_MAX_MPS :: real where
  "PIPE_SPEED_MAX_MPS = 3.0"

subsection \<open>Strings\<close>

text \<open>
  Strings are ASCII. \<open>\s\<close> matches space, tab, line feed, vertical tab, form feed and
  carriage return; \<open>\w\<close> matches letters, digits and the underscore.
\<close>

definition is_space :: "char \<Rightarrow> bool" where
  "is_space c = (c \<in> set [CHR '' '', CHR 0x09, CHR 0x0A, CHR 0x0B, CHR 0x0C, CHR 0x0D])"

definition is_upper :: "char \<Rightarrow> bool" where
  "is_upper c = (65 \<le> (of_char c :: nat) \<and> (of_char c :: nat) \<le> 90)"

definition is_lower :: "char \<Rightarrow> bool" where
  "is_lower c = (97 \<le> (of_char c :: nat) \<and> (of_char c :: nat) \<le> 122)"

definition is_digit :: "char \<Rightarrow> bool" where
  "is_digit c = (48 \<le> (of_char c :: nat) \<and> (of_char c :: nat) \<le> 57)"

definition is_word :: "char \<Rightarrow> bool" where
  "is_word c = (is_upper c \<or> is_lower c \<or> is_digit c \<or> c = CHR ''_'')"

definition toUpperChar :: "char \<Rightarrow> char" where
  "toUpperChar c = (if is_lower c then char_of ((of_char c :: nat) - 32) else c)"

definition toLowerChar :: "char \<Rightarrow> char" where
  "toLowerChar c = (if is_upper c then char_of ((of_char c :: nat) + 32) else c)"

definition toUpperCase :: "string \<Rightarrow> string" where
  "toUpperCase s = map toUpperChar s"

definition toLowerCase :: "string \<Rightarrow> string" where
  "toLowerCase s = map toLowerChar s"

definition trim :: "string \<Rightarrow> string" where
  "trim s = rev (dropWhile is_space (rev (dropWhile is_space s)))"

text \<open>\<open>.replace(/\s+/g, " ")\<close>: every maximal run of white space becomes one space.\<close>

fun collapse_spaces :: "bool \<Rightarrow> string \<Rightarrow> string" where
  "collapse_spaces in_run [] = []"
| "collapse_spaces in_run (c # cs) =
     (if is_space c then (if in_run then collapse_spaces True cs
                          else CHR '' '' # collapse_spaces True cs)
      else c # collapse_spaces False cs)"

text \<open>\<open>.replace(/[^\w\s]/g, "")\<close>.\<close>

definition strip_punct :: "string \<Rightarrow> string" where
  "strip_punct s = filter (\<lambda>c. is_word c \<or> is_space c) s"

definition normaliseSewerName :: "('k, 'z) builtins_scheme \<Rightarrow> jsval \<Rightarrow> string" where
  "normaliseSewerName B v =
     trim (strip_punct (collapse_spaces False (toUpperCase (js_String B (js_or v (JStr ''''))))))"

section \<open>Features\<close>

text \<open>
  The raw attributes a feature carries and the fields the loader derives (written with a
  leading underscore in the source, with a leading \<open>x\<close> here). A property bag that is
  missing reads as the empty one.
\<close>

record props =
  SEWER_NAME :: jsval
  SEWERNAME :: jsval
  UPSTREAM_IL :: jsval
  DOWNSTREAM_IL :: jsval
  PIPE_LENGTH :: jsval
  PIPE_WIDTH :: jsval
  PIPE_HEIGHT :: jsval
  key_DIR :: jsval
  key_Dir :: jsval
  key_dir :: jsval
  key_DIRECTION :: jsval
  key_Direction :: jsval
  key_direction :: jsval
  x_dir :: jsval
  x_dir_source :: jsval
  x_nextObjectIds :: "int list option"
  x_segment_candidate_objectid :: "int option"
  x_v_half_mps :: jsval
  x_sewer_name_norm :: jsval
  x_flowEndLL :: "latlng option"
  x_next_via_gap_bridge :: bool

definition empty_props :: props where
  "empty_props = \<lparr> SEWER_NAME = JUndefined, SEWERNAME = JUndefined, UPSTREAM_IL = JUndefined,
     DOWNSTREAM_IL = JUndefined, PIPE_LENGTH = JUndefined, PIPE_WIDTH = JUndefined,
     PIPE_HEIGHT = JUndefined, key_DIR = JUndefined, key_Dir = JUndefined, key_dir = JUndefined,
     key_DIRECTION = JUndefined, key_Direction = JUndefined, key_direction = JUndefined,
     x_dir = JUndefined, x_dir_source = JUndefined, x_nextObjectIds = None,
     x_segment_candidate_objectid = None, x_v_half_mps = JUndefined,
     x_sewer_name_norm = JUndefined, x_flowEndLL = None, x_next_via_gap_bridge = False \<rparr>"

datatype geometry = NoGeometry | LineString "latlng list" | MultiLineString "latlng list list"
  | OtherGeometry

record feature =
  geometry :: geometry
  properties :: "props option"

type_synonym graph = "int \<rightharpoonup> feature"

text \<open>\<open>ft?.properties || {}\<close>.\<close>

definition props_of :: "feature option \<Rightarrow> props" where
  "props_of ft = (case ft of None \<Rightarrow> empty_props
     | Some f \<Rightarrow> (case properties f of None \<Rightarrow> empty_props | Some p \<Rightarrow> p))"

text \<open>
  \<open>flattenFeatureCoords\<close>: a line string gives its coordinates; a multi-part geometry
  gives its longest part (the first of the longest, parts of fewer than two points skipped).
\<close>

fun longest_part :: "latlng list \<Rightarrow> int \<Rightarrow> latlng list list \<Rightarrow> latlng list \<times> int" where
  "longest_part best bestLen [] = (best, bestLen)"
| "longest_part best bestLen (part # parts) =
     (if length part < 2 then longest_part best bestLen parts
      else if int (length part) > bestLen then longest_part part (int (length part)) parts
      else longest_part best bestLen parts)"

definition flattenFeatureCoords :: "feature option \<Rightarrow> latlng list" where
  "flattenFeatureCoords ft =
     (case ft of None \<Rightarrow> []
      | Some f \<Rightarrow> (case geometry f of
            LineString cs \<Rightarrow> cs
          | MultiLineString parts \<Rightarrow>
              (let (best, bestLen) = longest_part [] (- 1) parts in if bestLen > 0 then best else [])
          | _ \<Rightarrow> []))"

text \<open>\<open>orderedCoordsForPipe\<close> of the direction-only variant: reversed when \<open>_dir\<close> is \<open>d_to_u\<close>.\<close>

definition orderedCoordsForPipe :: "('k, 'z) builtins_scheme \<Rightarrow> feature option \<Rightarrow> latlng list" where
  "orderedCoordsForPipe B ft =
     (let p = props_of ft; coords = flattenFeatureCoords ft
      in if length coords < 2 then []
         else (let d = js_String B (js_or (x_dir p) (JStr ''u_to_d''))
               in if d = ''d_to_u'' then rev coords else coords))"

section \<open>Successor resolution\<close>

subsection \<open>By bearing only (\<open>chooseNextPipeDirOnly\<close>)\<close>

text \<open>
  The loop over the candidates keeps the first candidate with the smallest bearing
  difference; a candidate whose feature has fewer than two coordinates is skipped.
\<close>

definition bearing_step ::
  "('k, 'z) builtins_scheme \<Rightarrow> graph \<Rightarrow> jsnum \<Rightarrow> int option \<times> jsnum \<Rightarrow> int \<Rightarrow> int option \<times> jsnum" where
  "bearing_step B byObjectId currBrng acc i =
     (let ord = orderedCoordsForPipe B (byObjectId i)
      in if length ord < 2 then acc
         else (let candBrng = bearingDeg B (ord ! 0) (ord ! 1);
                   delta = angleDiffDeg B currBrng candBrng
               in if js_less delta (snd acc) then (Some i, delta) else acc))"

text \<open>
  \<open>nextIds\<close> is \<open>None\<close> when the argument is not an array. The candidates left are
  those that are neither the previous segment nor visited or, when there is none, those
  that are not the previous segment.
\<close>

definition dir_only_candidates :: "int list option \<Rightarrow> int option \<Rightarrow> int set \<Rightarrow> int list" where
  "dir_only_candidates nextIds prevId visited =
     (let ids0 = (case nextIds of Some l \<Rightarrow> l | None \<Rightarrow> []);
          ids1 = filter (\<lambda>i. Some i \<noteq> prevId \<and> i \<notin> visited) ids0
      in if length ids1 > 0 then ids1 else filter (\<lambda>i. Some i \<noteq> prevId) ids0)"

text \<open>
  With two or more candidates left the function reads \<open>a.lat\<close> of the current pipe's last
  coordinates, which throws when the coordinate list is empty.
\<close>

definition chooseNextPipeDirOnly ::
  "('k, 'z) builtins_scheme \<Rightarrow> int list option \<Rightarrow> graph \<Rightarrow> latlng list \<Rightarrow> int option \<Rightarrow> int set
     \<Rightarrow> js_error + int option" where
  "chooseNextPipeDirOnly B nextIds byObjectId currOrderedCoords prevId visited =
     (let ids = dir_only_candidates nextIds prevId visited
      in if length ids = 0 then Inr None
         else if length ids = 1 then Inr (Some (ids ! 0))
         else if currOrderedCoords = [] then Inl TypeError
         else (let n = length currOrderedCoords;
                   a = currOrderedCoords ! (n - 2);
                   b = currOrderedCoords ! (n - 1);
                   currBrng = bearingDeg B a b;
                   (bestId, bestDelta) = foldl (bearing_step B byObjectId currBrng) (None, PosInf) ids
               in case bestId of Some i \<Rightarrow> Inr (Some i)
                  | None \<Rightarrow> Inr (Some (sort ids ! 0))))"

subsection \<open>By lowest downstream invert level (\<open>chooseNextPipeLowestDownIL\<close>)\<close>

definition sewer_name :: "('k, 'z) builtins_scheme \<Rightarrow> props \<Rightarrow> string" where
  "sewer_name B p = normaliseSewerName B (js_or (SEWER_NAME p) (SEWERNAME p))"

definition lowest_step ::
  "('k, 'z) builtins_scheme \<Rightarrow> graph \<Rightarrow> int option \<times> jsnum \<Rightarrow> int \<Rightarrow> int option \<times> jsnum" where
  "lowest_step B byObjectId acc i =
     (case toNum B (DOWNSTREAM_IL (props_of (byObjectId i))) of
        None \<Rightarrow> acc
      | Some d \<Rightarrow> if js_less (Fin d) (snd acc) then (Some i, Fin d) else acc)"

definition longest_step ::
  "('k, 'z) builtins_scheme \<Rightarrow> graph \<Rightarrow> int option \<times> jsnum \<Rightarrow> int \<Rightarrow> int option \<times> jsnum" where
  "longest_step B byObjectId acc i =
     (case toNum B (PIPE_LENGTH (props_of (byObjectId i))) of
        None \<Rightarrow> acc
      | Some len \<Rightarrow> if js_less (snd acc) (Fin len) then (Some i, Fin len) else acc)"

text \<open>The candidates after the same-name preference.\<close>

definition same_name_candidates ::
  "('k, 'z) builtins_scheme \<Rightarrow> int list \<Rightarrow> graph \<Rightarrow> props \<Rightarrow> int list" where
  "same_name_candidates B nextIds byObjectId currentProps =
     (let currentName = sewer_name B currentProps
      in if currentName \<noteq> [] then
           (let sameName = filter (\<lambda>i. let nm = sewer_name B (props_of (byObjectId i))
                                        in nm \<noteq> [] \<and> nm = currentName) nextIds
            in if length sameName > 0 then sameName else nextIds)
         else nextIds)"

definition chooseNextPipeLowestDownIL ::
  "('k, 'z) builtins_scheme \<Rightarrow> int list option \<Rightarrow> graph \<Rightarrow> props \<Rightarrow> int option" where
  "chooseNextPipeLowestDownIL B nextIds byObjectId currentProps =
     (case nextIds of None \<Rightarrow> None
      | Some ids \<Rightarrow>
          if length ids = 0 then None
          else (let candidateIds = same_name_candidates B ids byObjectId currentProps;
                    (bestId, bestDown) = foldl (lowest_step B byObjectId) (None, PosInf) candidateIds
                in case bestId of Some i \<Rightarrow> Some i
                   | None \<Rightarrow>
                       (let segCand = x_segment_candidate_objectid currentProps
                        in if (case segCand of None \<Rightarrow> False
                                | Some sc \<Rightarrow> sc \<noteq> 0 \<and> sc \<in> set candidateIds)
                           then segCand
                           else (let (bestLenId, bestLen) =
                                       foldl (longest_step B byObjectId) (None, NegInf) candidateIds
                                 in case bestLenId of Some i \<Rightarrow> Some i
                                    | None \<Rightarrow> (case candidateIds of [] \<Rightarrow> None
                                                | c # _ \<Rightarrow> Some c)))))"


subsection \<open>By look-ahead (\<open>chooseNextPipeWithLookahead\<close>)\<close>

text \<open>
  The state of the loop of \<open>lookaheadScore\<close>: the penalty so far, the hops made, the
  segment looked at (\<open>None\<close> for \<open>null\<close>), the segment before it and the local set.
  A \<open>break\<close> leaves the loop with the state it has.
\<close>

record la_state =
  la_total :: int
  la_hops :: nat
  la_id :: "int option"
  la_prev :: "int option"
  la_local :: "int option set"

function lookahead_loop ::
  "('k, 'z) builtins_scheme \<Rightarrow> graph \<Rightarrow> int set \<Rightarrow> nat \<Rightarrow> la_state \<Rightarrow> la_state" where
  "lookahead_loop B byObjectId visited depth s =
     (case la_id s of None \<Rightarrow> s
      | Some i \<Rightarrow>
          if \<not> la_hops s < depth then s
          else if i \<in> visited then s\<lparr>la_total := la_total s + 50\<rparr>
          else if Some i \<in> la_local s then s\<lparr>la_total := la_total s + 200\<rparr>
          else (case byObjectId i of
                  None \<Rightarrow> s\<lparr>la_total := la_total s + 100, la_local := insert (Some i) (la_local s)\<rparr>
                | Some ft \<Rightarrow>
                    (let p = props_of (Some ft);
                         d = toNum B (DOWNSTREAM_IL p);
                         total = (if d = None then la_total s + 2 else la_total s);
                         nextIds = (case x_nextObjectIds p of Some l \<Rightarrow> l | None \<Rightarrow> []);
                         stepIds = filter (\<lambda>x. Some x \<noteq> la_prev s) nextIds;
                         stepId = (if length stepIds > 0
                                   then chooseNextPipeLowestDownIL B (Some stepIds) byObjectId p
                                   else None)
                     in lookahead_loop B byObjectId visited depth
                          \<lparr>la_total = total, la_hops = la_hops s + 1, la_id = stepId,
                           la_prev = Some i, la_local = insert (Some i) (la_local s)\<rparr>)))"
  by pat_completeness auto
termination
  by (relation "measure (\<lambda>(B, byObjectId, visited, depth, s). depth - la_hops s)") auto

definition lookaheadScore ::
  "('k, 'z) builtins_scheme \<Rightarrow> int \<Rightarrow> graph \<Rightarrow> props \<Rightarrow> int option \<Rightarrow> int option \<Rightarrow> int set \<Rightarrow> nat
     \<Rightarrow> int" where
  "lookaheadScore B startId byObjectId currProps currId prevId visited depth =
     (let s = lookahead_loop B byObjectId visited depth
                \<lparr>la_total = 0, la_hops = 0, la_id = Some startId, la_prev = currId,
                 la_local = {currId, prevId}\<rparr>
      in la_total s + (int depth - int (la_hops s)) * 20)"

definition score_step ::
  "('k, 'z) builtins_scheme \<Rightarrow> graph \<Rightarrow> props \<Rightarrow> int option \<Rightarrow> int option \<Rightarrow> int set
     \<Rightarrow> int option \<times> jsnum \<Rightarrow> int \<Rightarrow> int option \<times> jsnum" where
  "score_step B byObjectId currProps currId prevId visited acc i =
     (let score = Fin (real_of_int (lookaheadScore B i byObjectId currProps currId prevId visited 10))
      in if js_less score (snd acc) then (Some i, score) else acc)"

definition chooseBestByLookahead ::
  "('k, 'z) builtins_scheme \<Rightarrow> int list \<Rightarrow> graph \<Rightarrow> props \<Rightarrow> int option \<Rightarrow> int option \<Rightarrow> int set
     \<Rightarrow> int option" where
  "chooseBestByLookahead B ids byObjectId currProps currId prevId visited =
     (if length ids = 1 then Some (ids ! 0)
      else (let (bestId, bestScore) =
                  foldl (score_step B byObjectId currProps currId prevId visited) (None, PosInf) ids
            in case bestId of Some i \<Rightarrow> Some i
               | None \<Rightarrow> chooseNextPipeLowestDownIL B (Some ids) byObjectId currProps))"

definition chooseNextPipeWithLookahead ::
  "('k, 'z) builtins_scheme \<Rightarrow> int list option \<Rightarrow> graph \<Rightarrow> props \<Rightarrow> int option \<Rightarrow> int option
     \<Rightarrow> int set \<Rightarrow> int option" where
  "chooseNextPipeWithLookahead B candidateIds byObjectId currProps currId prevId visited =
     (let ids0 = (case candidateIds of Some l \<Rightarrow> l | None \<Rightarrow> [])
      in if length ids0 = 0 then None
         else (let idsNoPrev = filter (\<lambda>i. Some i \<noteq> prevId) ids0;
                   idsBase = (if length idsNoPrev > 0 then idsNoPrev else ids0);
                   idsUnvisited = filter (\<lambda>i. i \<notin> visited) idsBase;
                   ids = (if length idsUnvisited > 0 then idsUnvisited else idsBase)
               in if length ids = 1 then Some (ids ! 0)
                  else chooseBestByLookahead B ids byObjectId currProps currId prevId visited))"

subsection \<open>With the direction source (\<open>260205 App v2.jsx\<close>)\<close>










section \<open>Direction decision\<close>

text \<open>
  \<open>parseDirFromProps\<close>: the first key variant that is neither absent nor \<open>null\<close> is
  the raw value; it is trimmed, lower-cased and compared with the accepted spellings.
\<close>

definition dir_attribute :: "props \<Rightarrow> jsval" where
  "dir_attribute p =
     js_nullish (js_nullish (js_nullish (js_nullish (js_nullish (js_nullish
       (key_DIR p) (key_Dir p)) (key_dir p)) (key_DIRECTION p)) (key_Direction p))
       (key_direction p)) JNull"

definition parseDirFromProps :: "('k, 'z) builtins_scheme \<Rightarrow> props \<Rightarrow> string option" where
  "parseDirFromProps B p =
     (let raw = dir_attribute p
      in if raw = JNull \<or> raw = JUndefined then None
         else (let v = toLowerCase (trim (js_String B raw))
               in if v = ''u_to_d'' \<or> v = ''u-to-d'' \<or> v = ''u to d'' \<or> v = ''u2d'' \<or> v = ''uto_d''
                  then Some ''u_to_d''
                  else if v = ''d_to_u'' \<or> v = ''d-to-u'' \<or> v = ''d to u'' \<or> v = ''d2u''
                          \<or> v = ''dto_u''
                  then Some ''d_to_u''
                  else None))"

text \<open>
  The direction decision of the loader: the pair of \<open>_dir\<close> and \<open>_dir_source\<close> it stores on
  the feature. A parsed direction is a non-empty string, hence truthy.
\<close>

definition load_direction :: "('k, 'z) builtins_scheme \<Rightarrow> props \<Rightarrow> string \<times> string" where
  "load_direction B p =
     (let dirFromData = parseDirFromProps B p;
          upIL = toNum B (UPSTREAM_IL p);
          downIL = toNum B (DOWNSTREAM_IL p)
      in case dirFromData of
           Some d \<Rightarrow> (d, ''DIR'')
         | None \<Rightarrow>
             (case (upIL, downIL) of
                (Some u, Some d) \<Rightarrow> (if u \<ge> d then ''u_to_d'' else ''d_to_u'', ''IL'')
              | _ \<Rightarrow> (''u_to_d'', ''default'')))"

section \<open>Path tracer\<close>

subsection \<open>Coordinate emission\<close>

text \<open>
  The plan and the set of grid cells already used travel together. A point is appended to
  the plan unless its grid cell is used (\<open>pushPoint\<close> in the depth-first variant, the same
  lines inline in the greedy one).
\<close>

definition pushPoint ::
  "('k, 'z) builtins_scheme \<Rightarrow> latlng list \<times> 'k set \<Rightarrow> latlng \<Rightarrow> latlng list \<times> 'k set" where
  "pushPoint B acc p =
     (let k = gridKey B p
      in if k \<in> snd acc then acc else (fst acc @ [p], insert k (snd acc)))"

text \<open>The index of the vertex nearest to the start point: the first of the nearest.\<close>

definition nearest_step ::
  "('k, 'z) builtins_scheme \<Rightarrow> latlng \<Rightarrow> latlng list \<Rightarrow> nat \<times> jsnum \<Rightarrow> nat \<Rightarrow> nat \<times> jsnum" where
  "nearest_step B startPoint ord acc i =
     (let d = metersBetween B startPoint (ord ! i)
      in if js_less d (snd acc) then (i, d) else acc)"

definition nearestIdx :: "('k, 'z) builtins_scheme \<Rightarrow> latlng \<Rightarrow> latlng list \<Rightarrow> nat" where
  "nearestIdx B startPoint ord =
     fst (foldl (nearest_step B startPoint ord) (0, PosInf) [0..<length ord])"

subsection \<open>Greedy walk (\<open>buildPipePlanFromObjectId\<close>, direction-only variant)\<close>

record 'k trace_state =
  t_plan :: "latlng list"
  t_visited :: "int set"
  t_currentId :: "int option"
  t_prevId :: "int option"
  t_first :: bool
  t_visitedCells :: "'k set"
  t_hop :: nat

text \<open>
  The coordinates of one pipe. On the first pipe, with a start point, the start point is
  appended as it is and the pipe follows from its nearest vertex. On every other pipe the
  last point of the plan is read once, before the loop, and a vertex closer to it than
  0.2 metres is skipped.
\<close>

definition near_last :: "('k, 'z) builtins_scheme \<Rightarrow> latlng option \<Rightarrow> latlng \<Rightarrow> bool" where
  "near_last B lst p =
     (case lst of None \<Rightarrow> False | Some l \<Rightarrow> js_less (metersBetween B l p) (Fin 0.2))"

definition emit_pipe ::
  "('k, 'z) builtins_scheme \<Rightarrow> latlng option \<Rightarrow> latlng list \<Rightarrow> 'k trace_state \<Rightarrow> 'k trace_state" where
  "emit_pipe B startPoint ord s =
     (case (t_first s, startPoint) of
        (True, Some sp) \<Rightarrow>
          (let plan1 = t_plan s @ [\<lparr> lat = lat sp, lng = lng sp \<rparr>];
               (plan2, cells2) = foldl (pushPoint B) (plan1, t_visitedCells s)
                                   (drop (nearestIdx B sp ord) ord)
           in s\<lparr> t_plan := plan2, t_visitedCells := cells2, t_first := False \<rparr>)
      | _ \<Rightarrow>
          (let lst = (if t_plan s = [] then None else Some (last (t_plan s)));
               (plan2, cells2) = foldl (\<lambda>acc p. if near_last B lst p then acc else pushPoint B acc p)
                                   (t_plan s, t_visitedCells s) ord
           in s\<lparr> t_plan := plan2, t_visitedCells := cells2 \<rparr>))"

text \<open>
  One run of the body of the \<open>for\<close> loop over \<open>hop\<close>: it ends in a \<open>break\<close>, in an
  exception thrown by the successor resolution, or at its last line, ready for the next hop.
\<close>

datatype 'k outcome = Break "'k trace_state" | Throw js_error | Continue "'k trace_state"

definition trace_body ::
  "('k, 'z) builtins_scheme \<Rightarrow> latlng option \<Rightarrow> graph \<Rightarrow> 'k trace_state \<Rightarrow> 'k outcome" where
  "trace_body B startPoint byObjectId s =
     (case t_currentId s of
        None \<Rightarrow> Break s
      | Some cid \<Rightarrow>
          if cid \<in> t_visited s then Break s
          else (case byObjectId cid of
                  None \<Rightarrow> Break s
                | Some ft \<Rightarrow>
                    (let s1 = s\<lparr> t_visited := insert cid (t_visited s) \<rparr>;
                         ord = orderedCoordsForPipe B (Some ft)
                     in if length ord < 2 then Break s1
                        else (let s2 = emit_pipe B startPoint ord s1;
                                  props = props_of (Some ft);
                                  nextIds = (case x_nextObjectIds props of
                                               Some l \<Rightarrow> l | None \<Rightarrow> [])
                              in case chooseNextPipeDirOnly B (Some nextIds) byObjectId ord
                                        (t_prevId s2) (t_visited s2) of
                                   Inl e \<Rightarrow> Throw e
                                 | Inr nextId \<Rightarrow>
                                     Continue (s2\<lparr> t_prevId := Some cid,
                                                   t_currentId := nextId \<rparr>)))))"

text \<open>The loop: \<open>hop\<close> counts the runs of the body that reached its last line.\<close>

function trace_loop ::
  "('k, 'z) builtins_scheme \<Rightarrow> latlng option \<Rightarrow> graph \<Rightarrow> nat \<Rightarrow> 'k trace_state
     \<Rightarrow> js_error + 'k trace_state" where
  "trace_loop B startPoint byObjectId maxHops s =
     (if \<not> t_hop s < maxHops then Inr s
      else (case trace_body B startPoint byObjectId s of
              Break s' \<Rightarrow> Inr s'
            | Throw e \<Rightarrow> Inl e
            | Continue s' \<Rightarrow>
                trace_loop B startPoint byObjectId maxHops (s'\<lparr> t_hop := t_hop s + 1 \<rparr>)))"
  by pat_completeness auto
termination
  by (relation "measure (\<lambda>(B, startPoint, byObjectId, maxHops, s). maxHops - t_hop s)") auto

declare trace_loop.simps [simp del]

definition trace_init :: "int option \<Rightarrow> 'k trace_state" where
  "trace_init startObjectId =
     \<lparr> t_plan = [], t_visited = {}, t_currentId = startObjectId, t_prevId = None,
       t_first = True, t_visitedCells = {}, t_hop = 0 \<rparr>"

definition buildPipePlanFromObjectId ::
  "('k, 'z) builtins_scheme \<Rightarrow> int option \<Rightarrow> latlng option \<Rightarrow> graph \<Rightarrow> nat
     \<Rightarrow> js_error + latlng list" where
  "buildPipePlanFromObjectId B startObjectId startPoint byObjectId maxHops =
     (case trace_loop B startPoint byObjectId maxHops (trace_init startObjectId) of
        Inl e \<Rightarrow> Inl e
      | Inr s \<Rightarrow> Inr (t_plan s))"

subsection \<open>Depth-first search with backtracking (\<open>buildPipePlanFromObjectId\<close>, geometry-order variant)\<close>

text \<open>
  In this variant the flow of a pipe is its geometry order, and candidates are tried in the
  order of \<open>pickCandidateOrder\<close>: same trimmed name first, then larger cross-section, then
  lower id.
\<close>

definition orderedCoordsForPipe_geom :: "feature option \<Rightarrow> latlng list" where
  "orderedCoordsForPipe_geom ft = flattenFeatureCoords ft"

definition TARGET_PIPE_IDS :: "int set" where
  "TARGET_PIPE_IDS = {311851, 311905}"

definition raw_name :: "('k, 'z) builtins_scheme \<Rightarrow> props \<Rightarrow> string" where
  "raw_name B p = trim (js_String B (js_or (js_or (SEWER_NAME p) (SEWERNAME p)) (JStr [])))"

definition pipe_area :: "('k, 'z) builtins_scheme \<Rightarrow> props \<Rightarrow> real" where
  "pipe_area B p =
     (let w = (case toNum B (PIPE_WIDTH p) of Some x \<Rightarrow> x | None \<Rightarrow> 0);
          h = (case toNum B (PIPE_HEIGHT p) of Some x \<Rightarrow> x | None \<Rightarrow> 0)
      in max 0 w * max 0 h)"

text \<open>
  The comparator orders by \<open>sameName\<close> descending, then area descending, then id ascending:
  a stable sort by the key below, compared lexicographically.
\<close>

definition pickCandidateOrder ::
  "('k, 'z) builtins_scheme \<Rightarrow> int list \<Rightarrow> graph \<Rightarrow> feature option \<Rightarrow> int list" where
  "pickCandidateOrder B candidates byObjectId currentFt =
     (let curName = raw_name B (props_of currentFt)
      in sort_key (\<lambda>i. let p = props_of (byObjectId i);
                           name = raw_name B p;
                           sameName = (curName \<noteq> [] \<and> name \<noteq> [] \<and> name = curName)
                       in (if sameName then 0 else 1 :: nat, - pipe_area B p, i))
           candidates)"

definition getCandidates :: "feature option \<Rightarrow> int option \<Rightarrow> int list" where
  "getCandidates ft prevId =
     filter (\<lambda>i. Some i \<noteq> prevId)
       (case x_nextObjectIds (props_of ft) of Some l \<Rightarrow> l | None \<Rightarrow> [])"

text \<open>
  A frame of the explicit stack. The stacks \<open>frames\<close> and \<open>path\<close> are kept with their top
  first. \<open>d_iters\<close> is not in the source: it counts the runs of the loop body.
\<close>

record frame =
  f_id :: int
  f_prevId :: "int option"
  f_idx :: nat
  f_ordered :: "int list option"

record dfs_state =
  d_frames :: "frame list"
  d_path :: "int list"
  d_inPath :: "int set"
  d_found :: bool
  d_iters :: nat

text \<open>\<open>frames.pop(); inPath.delete(path.pop())\<close>.\<close>

definition dfs_pop :: "dfs_state \<Rightarrow> dfs_state" where
  "dfs_pop s =
     (case d_path s of
        [] \<Rightarrow> s\<lparr> d_frames := tl (d_frames s) \<rparr>
      | x # xs \<Rightarrow> s\<lparr> d_frames := tl (d_frames s), d_path := xs, d_inPath := d_inPath s - {x} \<rparr>)"

definition dfs_body :: "('k, 'z) builtins_scheme \<Rightarrow> graph \<Rightarrow> dfs_state \<Rightarrow> dfs_state" where
  "dfs_body B byObjectId s =
     (case d_frames s of
        [] \<Rightarrow> s
      | tp # rest \<Rightarrow>
          (case byObjectId (f_id tp) of
             None \<Rightarrow> dfs_pop s
           | Some ft \<Rightarrow>
               if f_id tp \<in> TARGET_PIPE_IDS then s\<lparr> d_found := True \<rparr>
               else (let tp1 = (case f_ordered tp of
                                   None \<Rightarrow> tp\<lparr> f_ordered := Some (pickCandidateOrder B
                                                    (getCandidates (Some ft) (f_prevId tp))
                                                    byObjectId (Some ft)),
                                                 f_idx := 0 \<rparr>
                                 | Some _ \<Rightarrow> tp);
                         ordered = (case f_ordered tp1 of Some l \<Rightarrow> l | None \<Rightarrow> [])
                     in if f_idx tp1 \<ge> length ordered then dfs_pop (s\<lparr> d_frames := tp1 # rest \<rparr>)
                        else (let nextId = ordered ! f_idx tp1;
                                  tp2 = tp1\<lparr> f_idx := f_idx tp1 + 1 \<rparr>
                              in if nextId \<in> d_inPath s then s\<lparr> d_frames := tp2 # rest \<rparr>
                                 else s\<lparr> d_frames := \<lparr> f_id = nextId, f_prevId = Some (f_id tp),
                                                        f_idx = 0, f_ordered = None \<rparr> # tp2 # rest,
                                         d_path := nextId # d_path s,
                                         d_inPath := insert nextId (d_inPath s) \<rparr>))))"

definition dfs_step :: "('k, 'z) builtins_scheme \<Rightarrow> graph \<Rightarrow> dfs_state \<Rightarrow> dfs_state" where
  "dfs_step B byObjectId s = dfs_body B byObjectId (s\<lparr> d_iters := d_iters s + 1 \<rparr>)"

text \<open>
  The loop goes on while the stack is not empty, the path is shorter than the cap and no
  target was reached (the \<open>break\<close>).
\<close>

definition dfs_cond :: "nat \<Rightarrow> dfs_state \<Rightarrow> bool" where
  "dfs_cond maxSteps s = (d_frames s \<noteq> [] \<and> length (d_path s) < maxSteps \<and> \<not> d_found s)"

definition dfs_init :: "int \<Rightarrow> dfs_state" where
  "dfs_init startObjectId =
     \<lparr> d_frames = [\<lparr> f_id = startObjectId, f_prevId = None, f_idx = 0, f_ordered = None \<rparr>],
       d_path = [startObjectId], d_inPath = {startObjectId}, d_found = False, d_iters = 0 \<rparr>"

definition dfs_search ::
  "('k, 'z) builtins_scheme \<Rightarrow> int \<Rightarrow> graph \<Rightarrow> nat \<Rightarrow> dfs_state option" where
  "dfs_search B startObjectId byObjectId maxSteps =
     while_option (dfs_cond maxSteps) (dfs_step B byObjectId) (dfs_init startObjectId)"

text \<open>
  The coordinates of the path found. Here every point, the start point too, goes through
  \<open>pushPoint\<close>, and the last point of the plan is read anew before every vertex.
\<close>

definition emit_points ::
  "('k, 'z) builtins_scheme \<Rightarrow> latlng list \<times> 'k set \<Rightarrow> latlng list \<Rightarrow> latlng list \<times> 'k set" where
  "emit_points B acc ps =
     foldl (\<lambda>acc p. if fst acc \<noteq> [] \<and> js_less (metersBetween B (last (fst acc)) p) (Fin 0.2)
                     then acc else pushPoint B acc p) acc ps"

definition emit_path_pipe ::
  "('k, 'z) builtins_scheme \<Rightarrow> latlng option \<Rightarrow> graph \<Rightarrow> latlng list \<times> 'k set \<Rightarrow> nat \<times> int
     \<Rightarrow> latlng list \<times> 'k set" where
  "emit_path_pipe B startPoint byObjectId acc e =
     (case byObjectId (snd e) of
        None \<Rightarrow> acc
      | Some ft \<Rightarrow>
          (let coords = orderedCoordsForPipe_geom (Some ft)
           in if length coords < 2 then acc
              else (case (fst e = 0, startPoint) of
                      (True, Some sp) \<Rightarrow>
                        (let acc1 = pushPoint B acc \<lparr> lat = lat sp, lng = lng sp \<rparr>
                         in emit_points B acc1 (drop (nearestIdx B sp coords) coords))
                    | _ \<Rightarrow> emit_points B acc coords)))"

definition emit_path ::
  "('k, 'z) builtins_scheme \<Rightarrow> latlng option \<Rightarrow> graph \<Rightarrow> int list \<Rightarrow> latlng list" where
  "emit_path B startPoint byObjectId pipeIds =
     fst (foldl (emit_path_pipe B startPoint byObjectId) ([], {})
            (zip [0..<length pipeIds] pipeIds))"

text \<open>The result is \<open>None\<close> if the search loop does not come to an end.\<close>

definition buildPipePlanFromObjectId_dfs ::
  "('k, 'z) builtins_scheme \<Rightarrow> int option \<Rightarrow> latlng option \<Rightarrow> graph \<Rightarrow> nat
     \<Rightarrow> latlng list option" where
  "buildPipePlanFromObjectId_dfs B startObjectId startPoint byObjectId maxSteps =
     (case startObjectId of
        None \<Rightarrow> Some []
      | Some sid \<Rightarrow>
          if byObjectId sid = None then Some []
          else (case dfs_search B sid byObjectId maxSteps of
                  None \<Rightarrow> None
                | Some s \<Rightarrow> Some (emit_path B startPoint byObjectId (rev (d_path s)))))"

subsection \<open>Backtracking search over choices (\<open>buildPipePlanFromObjectId\<close>, area-score variant)\<close>

text \<open>
  \<open>flattenFeatureCoords\<close> of this variant stitches all parts of a multi-part geometry,
  skipping the parts of fewer than two points and every point closer than 0.01 m to the
  last one kept.
\<close>

definition flatten_part ::
  "('k, 'z) builtins_scheme \<Rightarrow> latlng list \<Rightarrow> latlng list \<Rightarrow> latlng list" where
  "flatten_part B out part =
     foldl (\<lambda>out ll. if out \<noteq> [] \<and> js_less (metersBetween B (last out) ll) (Fin 0.01)
                     then out else out @ [ll]) out part"

definition flattenFeatureCoords_stitched ::
  "('k, 'z) builtins_scheme \<Rightarrow> feature option \<Rightarrow> latlng list" where
  "flattenFeatureCoords_stitched B ft =
     (case ft of None \<Rightarrow> []
      | Some f \<Rightarrow> (case geometry f of
            LineString cs \<Rightarrow> cs
          | MultiLineString parts \<Rightarrow>
              foldl (\<lambda>out part. if length part < 2 then out else flatten_part B out part) [] parts
          | _ \<Rightarrow> []))"

definition orderedCoordsForPipe_stitched ::
  "('k, 'z) builtins_scheme \<Rightarrow> feature option \<Rightarrow> latlng list" where
  "orderedCoordsForPipe_stitched B ft =
     (let p = props_of ft;
          d = js_String B (js_or (x_dir p) (JStr ''u_to_d''));
          coords = flattenFeatureCoords_stitched B ft
      in if d = ''d_to_u'' then rev coords else coords)"

definition pipeAreaScore :: "('k, 'z) builtins_scheme \<Rightarrow> props \<Rightarrow> real" where
  "pipeAreaScore B p =
     (let w = (case toNum B (PIPE_WIDTH p) of Some x \<Rightarrow> x | None \<Rightarrow> 0)
      in case toNum B (PIPE_HEIGHT p) of
           None \<Rightarrow> w * w
         | Some h \<Rightarrow> if h = 0 then w * w else max 0 w * max 0 h)"

text \<open>The same comparator as above, on normalised names and area scores.\<close>

definition pickCandidateOrder_area ::
  "('k, 'z) builtins_scheme \<Rightarrow> int list \<Rightarrow> graph \<Rightarrow> feature option \<Rightarrow> int list" where
  "pickCandidateOrder_area B candidates byObjectId currentFt =
     (let curName = sewer_name B (props_of currentFt)
      in sort_key (\<lambda>i. let p = props_of (byObjectId i);
                           name = sewer_name B p;
                           sameName = (curName \<noteq> [] \<and> name \<noteq> [] \<and> name = curName)
                       in (if sameName then 0 else 1 :: nat, - pipeAreaScore B p, i))
           candidates)"

definition getChoices ::
  "('k, 'z) builtins_scheme \<Rightarrow> graph \<Rightarrow> int \<Rightarrow> int option \<Rightarrow> int list" where
  "getChoices B byObjectId pid prevId =
     (case byObjectId pid of
        None \<Rightarrow> []
      | Some ft \<Rightarrow>
          (let next = (case x_nextObjectIds (props_of (Some ft)) of Some l \<Rightarrow> l | None \<Rightarrow> []);
               filtered = (case prevId of Some pv \<Rightarrow> filter (\<lambda>x. x \<noteq> pv) next | None \<Rightarrow> next)
           in pickCandidateOrder_area B filtered byObjectId (Some ft)))"

text \<open>
  The loop body. The frames are those of the search above, \<open>f_ordered\<close> holding the field
  \<open>choices\<close>; the logging of the first hops is left out.
\<close>

definition choices_body :: "('k, 'z) builtins_scheme \<Rightarrow> graph \<Rightarrow> dfs_state \<Rightarrow> dfs_state" where
  "choices_body B byObjectId s =
     (case d_frames s of
        [] \<Rightarrow> s
      | tp # rest \<Rightarrow>
          (case byObjectId (f_id tp) of
             None \<Rightarrow> dfs_pop s
           | Some ft \<Rightarrow>
               if f_id tp \<in> TARGET_PIPE_IDS then s\<lparr> d_found := True \<rparr>
               else (let tp1 = (case f_ordered tp of
                                   None \<Rightarrow> tp\<lparr> f_ordered := Some (getChoices B byObjectId (f_id tp)
                                                                      (f_prevId tp)),
                                                 f_idx := 0 \<rparr>
                                 | Some _ \<Rightarrow> tp);
                         choices = (case f_ordered tp1 of Some l \<Rightarrow> l | None \<Rightarrow> [])
                     in if f_idx tp1 \<ge> length choices then dfs_pop (s\<lparr> d_frames := tp1 # rest \<rparr>)
                        else (let nextId = choices ! f_idx tp1;
                                  tp2 = tp1\<lparr> f_idx := f_idx tp1 + 1 \<rparr>
                              in if nextId \<in> d_inPath s then s\<lparr> d_frames := tp2 # rest \<rparr>
                                 else s\<lparr> d_frames := \<lparr> f_id = nextId, f_prevId = Some (f_id tp),
                                                        f_idx = 0, f_ordered = None \<rparr> # tp2 # rest,
                                         d_path := nextId # d_path s,
                                         d_inPath := insert nextId (d_inPath s) \<rparr>))))"

definition choices_step :: "('k, 'z) builtins_scheme \<Rightarrow> graph \<Rightarrow> dfs_state \<Rightarrow> dfs_state" where
  "choices_step B byObjectId s = choices_body B byObjectId (s\<lparr> d_iters := d_iters s + 1 \<rparr>)"

definition choices_search ::
  "('k, 'z) builtins_scheme \<Rightarrow> int \<Rightarrow> graph \<Rightarrow> nat \<Rightarrow> dfs_state option" where
  "choices_search B startObjectId byObjectId maxSteps =
     while_option (dfs_cond maxSteps) (choices_step B byObjectId) (dfs_init startObjectId)"

text \<open>The coordinates of the path: every point goes through \<open>pushPt\<close>, which is \<open>pushPoint\<close>.\<close>

definition emit_choices_pipe ::
  "('k, 'z) builtins_scheme \<Rightarrow> latlng option \<Rightarrow> graph \<Rightarrow> latlng list \<times> 'k set \<Rightarrow> nat \<times> int
     \<Rightarrow> latlng list \<times> 'k set" where
  "emit_choices_pipe B startPoint byObjectId acc e =
     (case byObjectId (snd e) of
        None \<Rightarrow> acc
      | Some ft \<Rightarrow>
          (let ord = orderedCoordsForPipe_stitched B (Some ft)
           in if length ord < 2 then acc
              else (case (fst e = 0, startPoint) of
                      (True, Some sp) \<Rightarrow>
                        (let acc1 = pushPoint B acc \<lparr> lat = lat sp, lng = lng sp \<rparr>
                         in foldl (pushPoint B) acc1 (drop (nearestIdx B sp ord) ord))
                    | _ \<Rightarrow> foldl (pushPoint B) acc ord)))"

definition emit_choices ::
  "('k, 'z) builtins_scheme \<Rightarrow> latlng option \<Rightarrow> graph \<Rightarrow> int list \<Rightarrow> latlng list" where
  "emit_choices B startPoint byObjectId pipeIds =
     fst (foldl (emit_choices_pipe B startPoint byObjectId) ([], {})
            (zip [0..<length pipeIds] pipeIds))"

text \<open>The result is \<open>None\<close> if the search loop does not come to an end.\<close>

definition buildPipePlanFromObjectId_choices ::
  "('k, 'z) builtins_scheme \<Rightarrow> int option \<Rightarrow> latlng option \<Rightarrow> graph \<Rightarrow> nat
     \<Rightarrow> latlng list option" where
  "buildPipePlanFromObjectId_choices B startObjectId startPoint byObjectId maxSteps =
     (case startObjectId of
        None \<Rightarrow> Some []
      | Some sid \<Rightarrow>
          (case choices_search B sid byObjectId maxSteps of
             None \<Rightarrow> None
           | Some s \<Rightarrow> Some (emit_choices B startPoint byObjectId (rev (d_path s)))))"

section \<open>Speed of a point in pipe mode\<close>

text \<open>
  \<open>pt.contact?.pipeObjectId\<close> is a number, \<open>null\<close> or \<open>undefined\<close>. \<open>enterPipeMode\<close> turns
  only \<open>null\<close> away; the tick takes neither \<open>null\<close> nor \<open>undefined\<close> to the graph.
\<close>

datatype object_id = IdUndefined | IdNull | IdNum int

record contact =
  contact_point :: "latlng option"
  pipeObjectId :: object_id

text \<open>The \<open>pipe\<close> record of a point: \<open>objectId\<close>, \<open>idx\<close>, \<open>speedMps\<close>, \<open>segmentVelocityMps\<close>.\<close>

record pipe_state =
  objectId :: object_id
  pipe_idx :: nat
  speedMps :: real
  segmentVelocityMps :: real

text \<open>What \<open>enterPipeMode\<close> makes of the point: the error mode, or pipe mode with a plan.\<close>

datatype entered = ModeError string | ModePipe pipe_state "latlng list"

text \<open>\<open>toNum(props._v_half_mps) || dflt\<close>.\<close>

definition num_or :: "real option \<Rightarrow> real \<Rightarrow> real" where
  "num_or v dflt = (case v of None \<Rightarrow> dflt | Some r \<Rightarrow> if r \<noteq> 0 then r else dflt)"

text \<open>\<open>byObjectId.get(objectId)\<close>: the map has numbers as its keys only.\<close>

definition get_feature :: "graph \<Rightarrow> object_id \<Rightarrow> feature option" where
  "get_feature byObjectId oid = (case oid of IdNum i \<Rightarrow> byObjectId i | _ \<Rightarrow> None)"

text \<open>
  \<open>enterPipeMode\<close> for the point it is called for. \<open>pipeData.byObjectId\<close> is \<open>None\<close> while
  no network is loaded, and the point may have no contact. The plan comes from the greedy
  walk with its default cap; an exception of the walk would leave \<open>enterPipeMode\<close> too.
\<close>

definition enterPipeMode ::
  "('k, 'z) builtins_scheme \<Rightarrow> graph option \<Rightarrow> contact option \<Rightarrow> js_error + entered" where
  "enterPipeMode B byObjectId ct =
     (let contactPoint = (case ct of None \<Rightarrow> None | Some c \<Rightarrow> contact_point c);
          oid = (case ct of None \<Rightarrow> IdUndefined | Some c \<Rightarrow> pipeObjectId c)
      in case (byObjectId, contactPoint) of
           (Some g, Some cp) \<Rightarrow>
             if oid = IdNull then Inr (ModeError ''Pipe network not ready'')
             else (let props = props_of (get_feature g oid);
                       vRaw = num_or (toNum B (x_v_half_mps props)) 0;
                       v = clamp vRaw PIPE_SPEED_MIN_MPS PIPE_SPEED_MAX_MPS
                   in case buildPipePlanFromObjectId B
                             (case oid of IdNum i \<Rightarrow> Some i | _ \<Rightarrow> None) (Some cp) g 2000 of
                        Inl e \<Rightarrow> Inl e
                      | Inr plan \<Rightarrow>
                          Inr (ModePipe \<lparr> objectId = oid, pipe_idx = 1, speedMps = v,
                                          segmentVelocityMps = v \<rparr> plan))
         | _ \<Rightarrow> Inr (ModeError ''Pipe network not ready''))"

text \<open>
  One tick of a point in pipe mode with a target ahead. \<open>tick_speed\<close> is the variable
  \<open>speed\<close> once the feature has been read: the value the tick stores in \<open>pipe.speedMps\<close>.
  The point's \<open>pipe\<close> record may be missing.
\<close>

definition tick_speed ::
  "('k, 'z) builtins_scheme \<Rightarrow> graph option \<Rightarrow> pipe_state option \<Rightarrow> real" where
  "tick_speed B byObjectId pipe =
     (let speed = (case pipe of None \<Rightarrow> 0.6
                   | Some pp \<Rightarrow> if speedMps pp \<noteq> 0 then speedMps pp else 0.6);
          oid = (case pipe of None \<Rightarrow> IdUndefined | Some pp \<Rightarrow> objectId pp)
      in case byObjectId of
           Some g \<Rightarrow>
             if oid \<noteq> IdNull \<and> oid \<noteq> IdUndefined then
               (let props = props_of (get_feature g oid);
                    vRaw = num_or (toNum B (x_v_half_mps props)) speed
                in clamp vRaw PIPE_SPEED_MIN_MPS PIPE_SPEED_MAX_MPS)
             else speed
         | None \<Rightarrow> speed)"

text \<open>
  The point is moved by \<open>stepMeters\<close> towards its target: the speed times the multiplier of
  the \<open>speed10x\<close> toggle, for the \<open>TICK_MS\<close> milliseconds of a tick.
\<close>

definition TICK_MS :: real where
  "TICK_MS = 80"

definition speedMult :: "bool \<Rightarrow> real" where
  "speedMult speed10x = (if speed10x then 10 else 1)"

definition stepMeters ::
  "('k, 'z) builtins_scheme \<Rightarrow> graph option \<Rightarrow> bool \<Rightarrow> pipe_state option \<Rightarrow> real" where
  "stepMeters B byObjectId speed10x pipe =
     (tick_speed B byObjectId pipe * speedMult speed10x * TICK_MS) / 1000"

text \<open>
  A point in pipe mode living through a sequence of ticks, each with the graph loaded and
  the toggle set at that moment. Every tick stores its speed in the \<open>pipe\<close> record. Of each
  tick the toggle, the speed stored and the step made are kept; \<open>motion_mps\<close> is the speed
  the step amounts to, in metres per second.
\<close>

record tick =
  tk_speed10x :: bool
  tk_speed :: real
  tk_stepMeters :: real

fun ticks ::
  "('k, 'z) builtins_scheme \<Rightarrow> pipe_state \<Rightarrow> (graph option \<times> bool) list \<Rightarrow> tick list" where
  "ticks B pp [] = []"
| "ticks B pp ((g, speed10x) # ts) =
     (let speed = tick_speed B g (Some pp)
      in \<lparr> tk_speed10x = speed10x, tk_speed = speed,
           tk_stepMeters = stepMeters B g speed10x (Some pp) \<rparr>
         # ticks B (pp\<lparr>speedMps := speed\<rparr>) ts)"

definition motion_mps :: "tick \<Rightarrow> real" where
  "motion_mps t = tk_stepMeters t * 1000 / TICK_MS"

section \<open>Gap bridging\<close>

text \<open>
  The second pass of the loader of the gap-bridging variant, for one feature: the
  successors by node match and, when there is none, the nearest flow starts within the
  bridge radius. Mercator coordinates and distances are idealised as reals. An entry of the
  spatial index is a flow start with its Mercator coordinates; a cell key, the string of
  two integers in the source, is a pair here.
\<close>

definition NODE_GAP_BRIDGE_MAX_M :: real where
  "NODE_GAP_BRIDGE_MAX_M = 45"

record flow_start =
  fs_objectId :: int
  fs_lng :: real
  fs_lat :: real
  fs_mx :: real
  fs_my :: real

record bridge_cand =
  bc_id :: int
  bc_dM :: real

definition nearbyFlowCellKeys :: "real \<Rightarrow> real \<Rightarrow> real \<Rightarrow> (int \<times> int) list" where
  "nearbyFlowCellKeys mx my cellSizeM =
     (let cx = \<lfloor>mx / cellSizeM\<rfloor>; cy = \<lfloor>my / cellSizeM\<rfloor>
      in concat (map (\<lambda>dx. map (\<lambda>dy. (cx + dx, cy + dy)) [- 1, 0, 1]) [- 1, 0, 1]))"

text \<open>The inner loop over the entries of one cell.\<close>

definition cell_candidates :: "int \<Rightarrow> real \<times> real \<Rightarrow> flow_start list \<Rightarrow> bridge_cand list" where
  "cell_candidates oid endM arr =
     concat (map (\<lambda>cand.
        if fs_objectId cand = oid then []
        else (let dMx = fs_mx cand - fst endM;
                  dMy = fs_my cand - snd endM;
                  dM = sqrt (dMx * dMx + dMy * dMy)
              in if dM \<le> NODE_GAP_BRIDGE_MAX_M then [\<lparr> bc_id = fs_objectId cand, bc_dM = dM \<rparr>]
                 else [])) arr)"

definition bridge_candidates ::
  "(int \<times> int \<rightharpoonup> flow_start list) \<Rightarrow> int \<Rightarrow> real \<times> real \<Rightarrow> bridge_cand list" where
  "bridge_candidates flowStartsByCell oid endM =
     concat (map (\<lambda>key. case flowStartsByCell key of
                            None \<Rightarrow> []
                          | Some arr \<Rightarrow> cell_candidates oid endM arr)
                 (nearbyFlowCellKeys (fst endM) (snd endM) NODE_GAP_BRIDGE_MAX_M))"

text \<open>\<open>p._sewer_name_norm || ""\<close>.\<close>

definition bridge_name :: "props \<Rightarrow> jsval" where
  "bridge_name p = js_or (x_sewer_name_norm p) (JStr [])"

text \<open>The candidates after the same-name preference.\<close>

definition bridge_filtered :: "graph \<Rightarrow> props \<Rightarrow> bridge_cand list \<Rightarrow> bridge_cand list" where
  "bridge_filtered byObjectId props candidateIds =
     (let currentName = bridge_name props
      in if js_truthy currentName then
           (let sameName = filter (\<lambda>cand. bridge_name (props_of (byObjectId (bc_id cand))) = currentName)
                             candidateIds
            in if length sameName > 0 then sameName else candidateIds)
         else candidateIds)"

text \<open>\<open>Array.from(new Set(xs))\<close>: the elements in the order of their first occurrence.\<close>

definition set_in_order :: "'a list \<Rightarrow> 'a list" where
  "set_in_order xs = foldl (\<lambda>acc x. if x \<in> set acc then acc else acc @ [x]) [] xs"

text \<open>
  The successors by node match; \<open>outObjectIds\<close> is \<open>None\<close> when the node of the flow
  end is missing.
\<close>

definition node_match_next :: "int list option \<Rightarrow> int \<Rightarrow> int list" where
  "node_match_next outObjectIds oid =
     (case outObjectIds of Some l \<Rightarrow> filter (\<lambda>i. i \<noteq> oid) l | None \<Rightarrow> [])"

definition flow_end_meters :: "('k, 'z) builtins_scheme \<Rightarrow> latlng \<Rightarrow> real \<times> real" where
  "flow_end_meters B endPt = mercatorMetersFromLngLat B (lng endPt) (lat endPt)"

text \<open>
  The result is the property bag with \<open>_nextObjectIds\<close> set and, after bridging,
  \<open>_next_via_gap_bridge\<close>.
\<close>

definition next_connections ::
  "('k, 'z) builtins_scheme \<Rightarrow> (int \<times> int \<rightharpoonup> flow_start list) \<Rightarrow> graph \<Rightarrow> int
     \<Rightarrow> int list option \<Rightarrow> props \<Rightarrow> props" where
  "next_connections B flowStartsByCell byObjectId oid outObjectIds props =
     (let next = node_match_next outObjectIds oid
      in case (length next = 0, x_flowEndLL props) of
           (True, Some endPt) \<Rightarrow>
             (let endM = flow_end_meters B endPt;
                  candidateIds = bridge_candidates flowStartsByCell oid endM
              in if length candidateIds > 0 then
                   (let filtered = sort_key bc_dM (bridge_filtered byObjectId props candidateIds)
                    in props\<lparr> x_nextObjectIds := Some (set_in_order (map bc_id (take 3 filtered))),
                              x_next_via_gap_bridge := True \<rparr>)
                 else props\<lparr> x_nextObjectIds := Some next \<rparr>)
         | _ \<Rightarrow> props\<lparr> x_nextObjectIds := Some next \<rparr>)"

section \<open>Invariants of the tracer\<close>

text \<open>
  The plan is a fixed prefix followed by points of pairwise different grid cells, and the
  cells used are exactly the cells of these points.
\<close>

definition cells_inv ::
  "('k, 'z) builtins_scheme \<Rightarrow> latlng list \<Rightarrow> latlng list \<times> 'k set \<Rightarrow> bool" where
  "cells_inv B pre acc =
     (\<exists>body. fst acc = pre @ body \<and> distinct (map (gridKey B) body) \<and>
             gridKey B ` set body = snd acc)"

text \<open>The prefix of the greedy walk: the start point, once it has been appended.\<close>

definition entry_prefix :: "latlng option \<Rightarrow> 'k trace_state \<Rightarrow> latlng list" where
  "entry_prefix sp s = (case sp of None \<Rightarrow> [] | Some p \<Rightarrow> if t_first s then [] else [p])"

definition trace_inv ::
  "('k, 'z) builtins_scheme \<Rightarrow> latlng option \<Rightarrow> 'k trace_state \<Rightarrow> bool" where
  "trace_inv B sp s =
     (cells_inv B (entry_prefix sp s) (t_plan s, t_visitedCells s) \<and>
      (sp \<noteq> None \<and> t_first s \<longrightarrow> t_plan s = []))"

text \<open>
  The depth-first search: the weight of a frame counts the candidates it has not tried yet;
  the weights of the stack, bottom first and padded with zeros up to the cap, fall in the
  lexicographic order with every run of the loop body.
\<close>

definition frame_weight :: "graph \<Rightarrow> frame \<Rightarrow> nat" where
  "frame_weight byObjectId f =
     (case f_ordered f of
        None \<Rightarrow> (case byObjectId (f_id f) of
                    None \<Rightarrow> 1
                  | Some ft \<Rightarrow> length (case x_nextObjectIds (props_of (Some ft)) of
                                         Some l \<Rightarrow> l | None \<Rightarrow> []) + 2)
      | Some l \<Rightarrow> (length l - f_idx f) + 1)"

definition frames_measure :: "graph \<Rightarrow> nat \<Rightarrow> frame list \<Rightarrow> nat list" where
  "frames_measure byObjectId n fs =
     rev (map (frame_weight byObjectId) fs) @ replicate (n - length fs) 0"

definition dfs_measure :: "graph \<Rightarrow> nat \<Rightarrow> dfs_state \<Rightarrow> nat \<times> nat list" where
  "dfs_measure byObjectId n s =
     (if d_found s then 0 else 1, frames_measure byObjectId n (d_frames s))"

definition dfs_inv :: "nat \<Rightarrow> dfs_state \<Rightarrow> bool" where
  "dfs_inv n s = (length (d_frames s) = length (d_path s) \<and> length (d_path s) \<le> max 1 n)"

text \<open>
  Two graphs with the same topology: the same ids, and for every id the same flattened
  coordinates, the same \<open>_dir\<close> and the same \<open>_nextObjectIds\<close>. Names, invert levels,
  dimensions and velocities may differ.
\<close>

definition same_topology :: "graph \<Rightarrow> graph \<Rightarrow> bool" where
  "same_topology g g' =
     (\<forall>i. (g i = None) = (g' i = None) \<and>
          flattenFeatureCoords (g i) = flattenFeatureCoords (g' i) \<and>
          x_dir (props_of (g i)) = x_dir (props_of (g' i)) \<and>
          x_nextObjectIds (props_of (g i)) = x_nextObjectIds (props_of (g' i)))"

text \<open>
  Two graphs that agree on what the area-score variant reads: the same ids, and for every
  id the same geometry, \<open>_dir\<close>, \<open>_nextObjectIds\<close>, names, width and height. Invert
  levels, lengths and velocities may differ.
\<close>

definition same_network :: "graph \<Rightarrow> graph \<Rightarrow> bool" where
  "same_network g g' =
     (\<forall>i. (g i = None) = (g' i = None) \<and>
          map_option geometry (g i) = map_option geometry (g' i) \<and>
          x_dir (props_of (g i)) = x_dir (props_of (g' i)) \<and>
          x_nextObjectIds (props_of (g i)) = x_nextObjectIds (props_of (g' i)) \<and>
          SEWER_NAME (props_of (g i)) = SEWER_NAME (props_of (g' i)) \<and>
          SEWERNAME (props_of (g i)) = SEWERNAME (props_of (g' i)) \<and>
          PIPE_WIDTH (props_of (g i)) = PIPE_WIDTH (props_of (g' i)) \<and>
          PIPE_HEIGHT (props_of (g i)) = PIPE_HEIGHT (props_of (g' i)))"




section \<open>Example data\<close>

text \<open>
  One fixed choice of the built-ins, to evaluate examples with: numbers are not parsed from
  strings, distances are sums of coordinate differences, grid cells are unit squares and
  bearings are the compass bearings of axis-parallel segments. The examples are chosen so
  that the floating-point functions of the source order and identify their points in the
  same way. Mercator coordinates are the coordinates themselves.
\<close>

definition plane_builtins :: "(int \<times> int) builtins" where
  "plane_builtins =
     \<lparr> parseFloat = (\<lambda>s. NaN),
       numToString = (\<lambda>n. ''0''),
       metersBetween = (\<lambda>a b. Fin (\<bar>lat a - lat b\<bar> + \<bar>lng a - lng b\<bar>)),
       gridKey = (\<lambda>p. (\<lfloor>lng p\<rfloor>, \<lfloor>lat p\<rfloor>)),
       bearingDeg = (\<lambda>a b. Fin (if lng a < lng b then 90 else if lng b < lng a then 270
                                   else if lat a \<le> lat b then 0 else 180)),
       angleDiffDeg = (\<lambda>a b. case (a, b) of
                          (Fin x, Fin y) \<Rightarrow> Fin (if \<bar>x - y\<bar> > 180 then 360 - \<bar>x - y\<bar> else \<bar>x - y\<bar>)
                        | _ \<Rightarrow> NaN),
       mercatorMetersFromLngLat = (\<lambda>lo la. (lo, la)) \<rparr>"

definition pt :: "real \<Rightarrow> real \<Rightarrow> latlng" where
  "pt la lo = \<lparr> lat = la, lng = lo \<rparr>"

text \<open>A pipe with the given coordinates, name, downstream invert level and successors.\<close>

definition pipe :: "latlng list \<Rightarrow> jsval \<Rightarrow> jsval \<Rightarrow> int list \<Rightarrow> feature" where
  "pipe cs nm dil nxt =
     \<lparr> geometry = LineString cs,
       properties = Some (empty_props\<lparr> SEWER_NAME := nm, DOWNSTREAM_IL := dil,
                                       x_nextObjectIds := Some nxt \<rparr>) \<rparr>"

text \<open>
  A fork: pipe 1 runs east and ends where pipes 2 and 3 start. Pipe 2 goes on east under
  another name; pipe 3 turns north and carries the name of pipe 1.
\<close>

definition fork_graph :: graph where
  "fork_graph =
     [1 \<mapsto> pipe [pt 0 0, pt 0 1] (JStr ''Main Sewer'') (JNum (Fin 9)) [3, 2],
      2 \<mapsto> pipe [pt 0 1, pt 0 2] (JStr ''Branch'') (JNum (Fin 5)) [],
      3 \<mapsto> pipe [pt 0 1, pt 1 1] (JStr ''main  sewer.'') (JNum (Fin 3)) []]"




text \<open>Pipes with a raw half-full velocity above, below and inside the speed band.\<close>

definition velocity_pipe :: "jsval \<Rightarrow> feature" where
  "velocity_pipe v =
     \<lparr> geometry = LineString [pt 0 0, pt 0 1],
       properties = Some (empty_props\<lparr> x_v_half_mps := v \<rparr>) \<rparr>"

definition velocity_graph :: graph where
  "velocity_graph =
     [1 \<mapsto> velocity_pipe (JNum (Fin 7.5)),
      2 \<mapsto> velocity_pipe (JNum (Fin 0)),
      3 \<mapsto> velocity_pipe (JNum (Fin 1.25)),
      4 \<mapsto> velocity_pipe (JNum NaN)]"

text \<open>The contact of a point that reached pipe \<open>i\<close> just beside its first vertex.\<close>

definition contact_at :: "int \<Rightarrow> contact" where
  "contact_at i = \<lparr> contact_point = Some (pt 0 0.000001), pipeObjectId = IdNum i \<rparr>"

text \<open>Three pipes in a ring: 1 runs into 2, 2 into 3 and 3 back into 1.\<close>

definition chain_graph :: graph where
  "chain_graph =
     [1 \<mapsto> pipe [pt 0 0, pt 0 1, pt 0 2] JUndefined JUndefined [2],
      2 \<mapsto> pipe [pt 0 2, pt 0 3] JUndefined JUndefined [3],
      3 \<mapsto> pipe [pt 0 3, pt 1 3] JUndefined JUndefined [1]]"

text \<open>A pipe with two dead-end successors.\<close>

definition star_graph :: graph where
  "star_graph =
     [1 \<mapsto> pipe [pt 0 0, pt 0 1] JUndefined JUndefined [2, 3],
      2 \<mapsto> pipe [pt 0 1, pt 0 2] JUndefined JUndefined [],
      3 \<mapsto> pipe [pt 0 1, pt 1 1] JUndefined JUndefined []]"

text \<open>A pipe that runs into one of the target pipes.\<close>

definition target_graph :: graph where
  "target_graph =
     [1 \<mapsto> pipe [pt 0 0, pt 0 1] JUndefined JUndefined [311851],
      311851 \<mapsto> pipe [pt 0 1, pt 0 2, pt 1 2] JUndefined JUndefined []]"

text \<open>The same two pipes with invert levels.\<close>

definition levelled_target_graph :: graph where
  "levelled_target_graph =
     [1 \<mapsto> pipe [pt 0 0, pt 0 1] JUndefined (JNum (Fin 7)) [311851],
      311851 \<mapsto> pipe [pt 0 1, pt 0 2, pt 1 2] JUndefined (JNum (Fin 3)) []]"

text \<open>The ring again, with names, invert levels and velocities added to its pipes.\<close>

definition named_pipe :: "latlng list \<Rightarrow> int list \<Rightarrow> feature" where
  "named_pipe cs nxt =
     \<lparr> geometry = LineString cs,
       properties = Some (empty_props\<lparr> SEWER_NAME := JStr ''Ring Main'', UPSTREAM_IL := JNum (Fin 4),
                                       DOWNSTREAM_IL := JNum (Fin 6), PIPE_WIDTH := JNum (Fin 300),
                                       x_nextObjectIds := Some nxt, x_v_half_mps := JNum (Fin 1) \<rparr>) \<rparr>"

definition named_chain_graph :: graph where
  "named_chain_graph =
     [1 \<mapsto> named_pipe [pt 0 0, pt 0 1, pt 0 2] [2],
      2 \<mapsto> named_pipe [pt 0 2, pt 0 3] [3],
      3 \<mapsto> named_pipe [pt 0 3, pt 1 3] [1]]"

text \<open>
  A pipe (id 10) whose flow end at Mercator (100, 100) matches no node. Flow starts lie
  3 m away (id 11, another name), 5 m away (id 12, the name of pipe 10), 40 m away in the
  next cell (id 13, the name of pipe 10) and 50 m away (id 14, the name of pipe 10).
\<close>

definition bridge_pipe :: "string \<Rightarrow> latlng \<Rightarrow> feature" where
  "bridge_pipe nm e =
     \<lparr> geometry = LineString [pt 0 0, e],
       properties = Some (empty_props\<lparr> x_sewer_name_norm := JStr nm, x_flowEndLL := Some e \<rparr>) \<rparr>"

definition bridge_graph :: graph where
  "bridge_graph =
     [10 \<mapsto> bridge_pipe ''MAIN'' (pt 100 100),
      11 \<mapsto> bridge_pipe ''SIDE'' (pt 0 0),
      12 \<mapsto> bridge_pipe ''MAIN'' (pt 0 0),
      13 \<mapsto> bridge_pipe ''MAIN'' (pt 0 0),
      14 \<mapsto> bridge_pipe ''MAIN'' (pt 0 0)]"

definition bridge_index :: "int \<times> int \<rightharpoonup> flow_start list" where
  "bridge_index =
     [(2, 2) \<mapsto> [\<lparr> fs_objectId = 11, fs_lng = 103, fs_lat = 100, fs_mx = 103, fs_my = 100 \<rparr>,
                  \<lparr> fs_objectId = 12, fs_lng = 100, fs_lat = 105, fs_mx = 100, fs_my = 105 \<rparr>],
      (3, 2) \<mapsto> [\<lparr> fs_objectId = 13, fs_lng = 140, fs_lat = 100, fs_mx = 140, fs_my = 100 \<rparr>,
                  \<lparr> fs_objectId = 14, fs_lng = 150, fs_lat = 100, fs_mx = 150, fs_my = 100 \<rparr>]]"

text \<open>Two pipes that are each other's only successor.\<close>

definition pair_graph :: graph where
  "pair_graph =
     [7 \<mapsto> pipe [pt 0 0, pt 0 1] JUndefined JUndefined [8],
      8 \<mapsto> pipe [pt 0 1, pt 0 0] JUndefined JUndefined [7]]"

section \<open>Properties of successor resolution\<close>

lemma bearing_fold_fst:
  "fst (foldl (bearing_step B g c) acc ids) = fst acc \<or>
   (\<exists>i \<in> set ids. fst (foldl (bearing_step B g c) acc ids) = Some i)"
proof (induction ids arbitrary: acc)
  case Nil
  then show ?case by simp
next
  case (Cons a ids)
  have "fst (bearing_step B g c acc a) = fst acc \<or> fst (bearing_step B g c acc a) = Some a"
    by (simp add: bearing_step_def Let_def)
  with Cons[of "bearing_step B g c acc a"] show ?case by auto
qed

lemma sort_nth0_mem: "ids \<noteq> [] \<Longrightarrow> sort ids ! 0 \<in> set (ids :: int list)"
proof -
  assume "ids \<noteq> []"
  then have "0 < length (sort ids)" by simp
  then have "sort ids ! 0 \<in> set (sort ids)" by (rule nth_mem)
  then show ?thesis by simp
qed

lemma dir_only_candidates_subset:
  "set (dir_only_candidates nextIds prevId visited) \<subseteq>
     {i \<in> set (case nextIds of Some l \<Rightarrow> l | None \<Rightarrow> []). Some i \<noteq> prevId}"
  by (auto simp: dir_only_candidates_def Let_def)

lemma dir_only_candidates_empty:
  "(dir_only_candidates nextIds prevId visited = []) =
     (\<forall>i \<in> set (case nextIds of Some l \<Rightarrow> l | None \<Rightarrow> []). Some i = prevId)"
  by (auto simp: dir_only_candidates_def Let_def filter_empty_conv)

text \<open>The three ways \<open>chooseNextPipeDirOnly\<close> ends.\<close>

lemma chooseNextPipeDirOnly_cases:
  assumes "ids = dir_only_candidates nextIds prevId visited"
  shows "(ids = [] \<and> chooseNextPipeDirOnly B nextIds byObjectId cs prevId visited = Inr None) \<or>
         (ids \<noteq> [] \<and> cs = [] \<and>
            chooseNextPipeDirOnly B nextIds byObjectId cs prevId visited = Inl TypeError) \<or>
         (\<exists>r \<in> set ids. chooseNextPipeDirOnly B nextIds byObjectId cs prevId visited = Inr (Some r))"
proof -
  define currBrng where "currBrng = bearingDeg B (cs ! (length cs - 2)) (cs ! (length cs - 1))"
  define best where "best = fst (foldl (bearing_step B byObjectId currBrng) (None, PosInf) ids)"
  have unf: "chooseNextPipeDirOnly B nextIds byObjectId cs prevId visited =
     (if length ids = 0 then Inr None
      else if length ids = 1 then Inr (Some (ids ! 0))
      else if cs = [] then Inl TypeError
      else (case best of Some i \<Rightarrow> Inr (Some i) | None \<Rightarrow> Inr (Some (sort ids ! 0))))"
    unfolding chooseNextPipeDirOnly_def Let_def assms[symmetric] currBrng_def[symmetric] best_def
    by (simp add: case_prod_beta)
  have best: "best = None \<or> (\<exists>i \<in> set ids. best = Some i)"
    using bearing_fold_fst[of B byObjectId currBrng "(None, PosInf)" ids] by (simp add: best_def)
  show ?thesis
  proof (cases "ids = []")
    case True
    then show ?thesis by (simp add: unf)
  next
    case False
    then have m0: "ids ! 0 \<in> set ids" by (intro nth_mem) simp
    have ms: "sort ids ! 0 \<in> set ids" using False by (rule sort_nth0_mem)
    show ?thesis
    proof (cases "length ids = 1")
      case True
      with m0 show ?thesis by (simp add: unf)
    next
      case l: False
      show ?thesis
      proof (cases "cs = []")
        case True
        with False l unf show ?thesis by simp
      next
        case c: False
        from best show ?thesis
        proof
          assume "best = None"
          with False l c ms show ?thesis by (simp add: unf)
        next
          assume "\<exists>i \<in> set ids. best = Some i"
          then obtain i where "i \<in> set ids" "best = Some i" by blast
          with False l c show ?thesis by (simp add: unf)
        qed
      qed
    qed
  qed
qed

lemma same_name_candidates_subset:
  "set (same_name_candidates B ids g p) \<subseteq> set ids"
  by (auto simp: same_name_candidates_def Let_def)






text \<open>
  C10. \<open>chooseNextPipeDirOnly\<close> returns \<open>null\<close> or a member of the candidate list it was
  given, and never an id outside that list; it returns \<open>null\<close> whenever the list holds no id
  other than the previous segment's. It returns (rather than throws) whenever the current
  pipe has coordinates.
\<close>

theorem chooseNextPipeDirOnly_member:
  "(currOrderedCoords \<noteq> [] \<longrightarrow>
      (\<exists>r. chooseNextPipeDirOnly B nextIds byObjectId currOrderedCoords prevId visited = Inr r)) \<and>
   (\<forall>r. chooseNextPipeDirOnly B nextIds byObjectId currOrderedCoords prevId visited = Inr r \<longrightarrow>
      r = None \<or> (\<exists>i \<in> set (case nextIds of Some l \<Rightarrow> l | None \<Rightarrow> []). r = Some i)) \<and>
   ((\<forall>i \<in> set (case nextIds of Some l \<Rightarrow> l | None \<Rightarrow> []). Some i = prevId) \<longrightarrow>
      chooseNextPipeDirOnly B nextIds byObjectId currOrderedCoords prevId visited = Inr None)"
proof -
  define ids where "ids = dir_only_candidates nextIds prevId visited"
  define ids0 where "ids0 = (case nextIds of Some l \<Rightarrow> l | None \<Rightarrow> [])"
  define res where "res = chooseNextPipeDirOnly B nextIds byObjectId currOrderedCoords prevId visited"
  have c: "(ids = [] \<and> res = Inr None) \<or> (ids \<noteq> [] \<and> currOrderedCoords = [] \<and> res = Inl TypeError) \<or>
         (\<exists>r \<in> set ids. res = Inr (Some r))"
    unfolding res_def by (rule chooseNextPipeDirOnly_cases) (rule ids_def)
  have sub: "set ids \<subseteq> set ids0"
    using dir_only_candidates_subset[of nextIds prevId visited] by (auto simp: ids_def ids0_def)
  have emp: "(\<forall>i \<in> set ids0. Some i = prevId) \<Longrightarrow> ids = []"
    using dir_only_candidates_empty[of nextIds prevId visited] by (simp add: ids_def ids0_def)
  have p1: "currOrderedCoords \<noteq> [] \<longrightarrow> (\<exists>r. res = Inr r)"
    using c by blast
  have p2: "\<forall>r. res = Inr r \<longrightarrow> r = None \<or> (\<exists>i \<in> set ids0. r = Some i)"
    using c sub by auto
  have p3: "(\<forall>i \<in> set ids0. Some i = prevId) \<longrightarrow> res = Inr None"
    using c emp by auto
  from p1 p2 p3 show ?thesis unfolding res_def ids0_def by blast
qed

theorem chooseNextPipeDirOnly_member_witness:
  "[pt 0 1, pt 0 0] \<noteq> [] \<and>
   chooseNextPipeDirOnly plane_builtins (Some [7]) pair_graph [pt 0 1, pt 0 0] (Some 7) {7, 8} = Inr None \<and>
   chooseNextPipeDirOnly plane_builtins (Some [3, 2]) fork_graph [pt 0 0, pt 0 1] None {1} = Inr (Some 2) \<and>
   (\<exists>i \<in> set [3, 2]. Some (2::int) = Some i)"
proof -
  have e: "chooseNextPipeDirOnly plane_builtins (Some [3, 2]) fork_graph [pt 0 0, pt 0 1] None {1} = Inr (Some 2)"
    by code_simp
  have n: "chooseNextPipeDirOnly plane_builtins (Some [7]) pair_graph [pt 0 1, pt 0 0] (Some 7) {7, 8} = Inr None"
    using chooseNextPipeDirOnly_member[where currOrderedCoords="[pt 0 1, pt 0 0]" and B=plane_builtins
        and nextIds="Some [7]" and byObjectId=pair_graph and prevId="Some 7" and visited="{7, 8}"]
    by simp
  have m: "\<exists>i \<in> set [3, 2]. Some (2::int) = Some i"
    using chooseNextPipeDirOnly_member[where currOrderedCoords="[pt 0 0, pt 0 1]" and B=plane_builtins
        and nextIds="Some [3, 2]" and byObjectId=fork_graph and prevId=None and visited="{1}"] e
    by simp
  from e n m show ?thesis by simp
qed

lemma score_fold_fst:
  "fst (foldl (score_step B g p cur prev vis) acc ids) = fst acc \<or>
   (\<exists>i \<in> set ids. fst (foldl (score_step B g p cur prev vis) acc ids) = Some i)"
proof (induction ids arbitrary: acc)
  case Nil
  then show ?case by simp
next
  case (Cons a ids)
  have "fst (score_step B g p cur prev vis acc a) = fst acc \<or>
        fst (score_step B g p cur prev vis acc a) = Some a"
    by (simp add: score_step_def Let_def)
  with Cons[of "score_step B g p cur prev vis acc a"] show ?case by auto
qed

lemma score_fold_some:
  assumes "ids \<noteq> []"
  shows "\<exists>i \<in> set ids. fst (foldl (score_step B g p cur prev vis) (None, PosInf) ids) = Some i"
proof -
  from assms obtain a rest where ids: "ids = a # rest" by (cases ids) auto
  have first: "fst (score_step B g p cur prev vis (None, PosInf) a) = Some a"
    by (simp add: score_step_def Let_def)
  from score_fold_fst[of B g p cur prev vis "score_step B g p cur prev vis (None, PosInf) a" rest] first
  show ?thesis by (auto simp: ids)
qed

lemma chooseBestByLookahead_mem:
  assumes "ids \<noteq> []"
  shows "\<exists>r \<in> set ids. chooseBestByLookahead B ids g p cur prev vis = Some r"
proof (cases "length ids = 1")
  case True
  then have "ids ! 0 \<in> set ids" by (intro nth_mem) simp
  with True show ?thesis by (simp add: chooseBestByLookahead_def)
next
  case False
  from score_fold_some[OF assms, of B g p cur prev vis] obtain i where
    "i \<in> set ids" "fst (foldl (score_step B g p cur prev vis) (None, PosInf) ids) = Some i" by blast
  with False show ?thesis by (simp add: chooseBestByLookahead_def case_prod_beta)
qed

text \<open>The candidates \<open>chooseNextPipeWithLookahead\<close> chooses among.\<close>

lemma chooseNextPipeWithLookahead_mem:
  assumes "ids0 \<noteq> []"
    and "idsBase = (if filter (\<lambda>i. Some i \<noteq> prev) ids0 \<noteq> [] then filter (\<lambda>i. Some i \<noteq> prev) ids0 else ids0)"
  shows "\<exists>r \<in> set idsBase. chooseNextPipeWithLookahead B (Some ids0) g p cur prev vis = Some r"
proof -
  define ids where "ids = (if filter (\<lambda>i. i \<notin> vis) idsBase \<noteq> [] then filter (\<lambda>i. i \<notin> vis) idsBase else idsBase)"
  have base: "idsBase \<noteq> []" using assms by (auto split: if_splits)
  then have ne: "ids \<noteq> []" by (simp add: ids_def)
  have sub: "set ids \<subseteq> set idsBase" by (auto simp: ids_def)
  have unf: "chooseNextPipeWithLookahead B (Some ids0) g p cur prev vis =
      (if length ids = 1 then Some (ids ! 0) else chooseBestByLookahead B ids g p cur prev vis)"
    using assms(1) unfolding chooseNextPipeWithLookahead_def Let_def ids_def assms(2)
    by simp
  show ?thesis
  proof (cases "length ids = 1")
    case True
    then have "ids ! 0 \<in> set ids" by (intro nth_mem) simp
    with True sub show ?thesis by (auto simp: unf)
  next
    case False
    with chooseBestByLookahead_mem[OF ne, of B g p cur prev vis] sub show ?thesis
      by (auto simp: unf)
  qed
qed

text \<open>
  C5, as the code has it. \<open>chooseNextPipeWithLookahead\<close> leaves the previous segment out
  whenever the candidate list holds another id, and chooses the previous segment when it is
  the only candidate. \<open>chooseNextPipeDirOnly\<close> never returns the previous segment.
\<close>

theorem previous_segment_excluded:
  "((\<exists>i \<in> set ids0. Some i \<noteq> prevId) \<longrightarrow>
      (\<exists>r \<in> set ids0. Some r \<noteq> prevId \<and>
         chooseNextPipeWithLookahead B (Some ids0) byObjectId currProps currId prevId visited = Some r)) \<and>
   (ids0 \<noteq> [] \<and> (\<forall>i \<in> set ids0. Some i = prevId) \<longrightarrow>
      chooseNextPipeWithLookahead B (Some ids0) byObjectId currProps currId prevId visited = prevId) \<and>
   (\<forall>r. chooseNextPipeDirOnly B nextIds byObjectId currOrderedCoords prevId visited = Inr (Some r) \<longrightarrow>
      Some r \<noteq> prevId)"
proof -
  define idsBase where "idsBase = (if filter (\<lambda>i. Some i \<noteq> prevId) ids0 \<noteq> []
      then filter (\<lambda>i. Some i \<noteq> prevId) ids0 else ids0)"
  have mem: "ids0 \<noteq> [] \<Longrightarrow> \<exists>r \<in> set idsBase.
      chooseNextPipeWithLookahead B (Some ids0) byObjectId currProps currId prevId visited = Some r"
    by (rule chooseNextPipeWithLookahead_mem) (simp_all add: idsBase_def)
  have p1: "(\<exists>i \<in> set ids0. Some i \<noteq> prevId) \<longrightarrow>
      (\<exists>r \<in> set ids0. Some r \<noteq> prevId \<and>
         chooseNextPipeWithLookahead B (Some ids0) byObjectId currProps currId prevId visited = Some r)"
  proof
    assume a: "\<exists>i \<in> set ids0. Some i \<noteq> prevId"
    then have ne: "ids0 \<noteq> []" by auto
    from a have "filter (\<lambda>i. Some i \<noteq> prevId) ids0 \<noteq> []" by (auto simp: filter_empty_conv)
    then have "set idsBase = {i \<in> set ids0. Some i \<noteq> prevId}" by (auto simp: idsBase_def)
    with mem[OF ne] show "\<exists>r \<in> set ids0. Some r \<noteq> prevId \<and>
         chooseNextPipeWithLookahead B (Some ids0) byObjectId currProps currId prevId visited = Some r"
      by auto
  qed
  have p2: "ids0 \<noteq> [] \<and> (\<forall>i \<in> set ids0. Some i = prevId) \<longrightarrow>
      chooseNextPipeWithLookahead B (Some ids0) byObjectId currProps currId prevId visited = prevId"
  proof
    assume a: "ids0 \<noteq> [] \<and> (\<forall>i \<in> set ids0. Some i = prevId)"
    then have "filter (\<lambda>i. Some i \<noteq> prevId) ids0 = []" by (auto simp: filter_empty_conv)
    then have "idsBase = ids0" by (simp add: idsBase_def)
    with mem a show "chooseNextPipeWithLookahead B (Some ids0) byObjectId currProps currId prevId visited = prevId"
      by auto
  qed
  have p3: "\<forall>r. chooseNextPipeDirOnly B nextIds byObjectId currOrderedCoords prevId visited = Inr (Some r) \<longrightarrow>
      Some r \<noteq> prevId"
    using chooseNextPipeDirOnly_cases[OF refl, where B=B and nextIds=nextIds and prevId=prevId and visited=visited and byObjectId=byObjectId and cs=currOrderedCoords]
      dir_only_candidates_subset[of nextIds prevId visited]
    by auto
  from p1 p2 p3 show ?thesis by blast
qed

theorem previous_segment_excluded_witness:
  "(\<exists>i \<in> set [7, 9]. Some i \<noteq> Some (7::int)) \<and>
   chooseNextPipeWithLookahead plane_builtins (Some [7, 9]) pair_graph (props_of (pair_graph 8))
     (Some 8) (Some 7) {7, 8} = Some 9 \<and>
   [7::int] \<noteq> [] \<and>
   chooseNextPipeWithLookahead plane_builtins (Some [7]) pair_graph (props_of (pair_graph 8))
     (Some 8) (Some 7) {7, 8} = Some 7"
proof -
  have e: "chooseNextPipeWithLookahead plane_builtins (Some [7, 9]) pair_graph (props_of (pair_graph 8))
     (Some 8) (Some 7) {7, 8} = Some 9"
    using previous_segment_excluded[where ?ids0.0="[7, 9]" and prevId="Some 7" and B=plane_builtins
        and byObjectId=pair_graph and currProps="props_of (pair_graph 8)" and currId="Some 8"
        and visited="{7, 8}"]
    by auto
  have f: "chooseNextPipeWithLookahead plane_builtins (Some [7]) pair_graph (props_of (pair_graph 8))
     (Some 8) (Some 7) {7, 8} = Some 7"
    using previous_segment_excluded[where ?ids0.0="[7]" and prevId="Some 7" and B=plane_builtins
        and byObjectId=pair_graph and currProps="props_of (pair_graph 8)" and currId="Some 8"
        and visited="{7, 8}"]
    by simp
  from e f show ?thesis by simp
qed

text \<open>
  The claim as stated fails for \<open>chooseNextPipeDirOnly\<close>: at pipe 8, reached from pipe 7
  and with pipe 7 as its only candidate, the result is \<open>null\<close>, a dead end.
\<close>

theorem previous_sole_candidate_dead_end:
  "x_nextObjectIds (props_of (pair_graph 8)) = Some [7] \<and>
   chooseNextPipeDirOnly plane_builtins (Some [7]) pair_graph
     (orderedCoordsForPipe plane_builtins (pair_graph 8)) (Some 7) {7, 8} = Inr None"
  by code_simp




section \<open>Properties of the direction decision\<close>

text \<open>
  C8. The direction decision: a parseable direction attribute is used; otherwise two
  numeric invert levels decide, upstream at or above downstream giving \<open>u_to_d\<close> and
  upstream below downstream giving \<open>d_to_u\<close>; otherwise the direction is \<open>u_to_d\<close>.
  The attribute is parseable when, trimmed and lower-cased, it is one of the accepted
  spellings.
\<close>

theorem direction_decision_priority:
  "(parseDirFromProps B p = Some d \<longrightarrow> load_direction B p = (d, ''DIR'')) \<and>
   (parseDirFromProps B p = None \<and> toNum B (UPSTREAM_IL p) = Some u \<and>
      toNum B (DOWNSTREAM_IL p) = Some dn \<longrightarrow>
      load_direction B p = (if u \<ge> dn then ''u_to_d'' else ''d_to_u'', ''IL'')) \<and>
   (parseDirFromProps B p = None \<and>
      (toNum B (UPSTREAM_IL p) = None \<or> toNum B (DOWNSTREAM_IL p) = None) \<longrightarrow>
      load_direction B p = (''u_to_d'', ''default'')) \<and>
   (dir_attribute p = JStr s \<and>
      toLowerCase (trim s) \<in> set [''u_to_d'', ''u-to-d'', ''u to d'', ''u2d'', ''uto_d''] \<longrightarrow>
      parseDirFromProps B p = Some ''u_to_d'') \<and>
   (dir_attribute p = JStr s \<and>
      toLowerCase (trim s) \<in> set [''d_to_u'', ''d-to-u'', ''d to u'', ''d2u'', ''dto_u''] \<longrightarrow>
      parseDirFromProps B p = Some ''d_to_u'')"
proof -
  have p1: "parseDirFromProps B p = Some d \<longrightarrow> load_direction B p = (d, ''DIR'')"
    by (simp add: load_direction_def)
  have p2: "parseDirFromProps B p = None \<and> toNum B (UPSTREAM_IL p) = Some u \<and>
      toNum B (DOWNSTREAM_IL p) = Some dn \<longrightarrow>
      load_direction B p = (if u \<ge> dn then ''u_to_d'' else ''d_to_u'', ''IL'')"
    by (simp add: load_direction_def)
  have p3: "parseDirFromProps B p = None \<and>
      (toNum B (UPSTREAM_IL p) = None \<or> toNum B (DOWNSTREAM_IL p) = None) \<longrightarrow>
      load_direction B p = (''u_to_d'', ''default'')"
    by (auto simp: load_direction_def split: option.splits)
  have p4: "dir_attribute p = JStr s \<and>
      toLowerCase (trim s) \<in> set [''u_to_d'', ''u-to-d'', ''u to d'', ''u2d'', ''uto_d''] \<longrightarrow>
      parseDirFromProps B p = Some ''u_to_d''"
    by (auto simp: parseDirFromProps_def Let_def)
  have p5: "dir_attribute p = JStr s \<and>
      toLowerCase (trim s) \<in> set [''d_to_u'', ''d-to-u'', ''d to u'', ''d2u'', ''dto_u''] \<longrightarrow>
      parseDirFromProps B p = Some ''d_to_u''"
    by (auto simp: parseDirFromProps_def Let_def)
  from p1 p2 p3 p4 p5 show ?thesis by blast
qed

theorem direction_decision_priority_witness:
  "dir_attribute (empty_props\<lparr>key_Dir := JStr ''  D-To-U '', UPSTREAM_IL := JNum (Fin 9),
       DOWNSTREAM_IL := JNum (Fin 2)\<rparr>) = JStr ''  D-To-U '' \<and>
   load_direction plane_builtins (empty_props\<lparr>key_Dir := JStr ''  D-To-U '', UPSTREAM_IL := JNum (Fin 9),
       DOWNSTREAM_IL := JNum (Fin 2)\<rparr>) = (''d_to_u'', ''DIR'') \<and>
   load_direction plane_builtins (empty_props\<lparr>key_Dir := JStr ''downhill'', UPSTREAM_IL := JNum (Fin 2),
       DOWNSTREAM_IL := JNum (Fin 3)\<rparr>) = (''d_to_u'', ''IL'') \<and>
   load_direction plane_builtins (empty_props\<lparr>UPSTREAM_IL := JNum (Fin 2)\<rparr>) = (''u_to_d'', ''default'')"
proof -
  let ?p = "empty_props\<lparr>key_Dir := JStr ''  D-To-U '', UPSTREAM_IL := JNum (Fin 9),
       DOWNSTREAM_IL := JNum (Fin 2)\<rparr>"
  let ?q = "empty_props\<lparr>key_Dir := JStr ''downhill'', UPSTREAM_IL := JNum (Fin 2),
       DOWNSTREAM_IL := JNum (Fin 3)\<rparr>"
  let ?r = "empty_props\<lparr>UPSTREAM_IL := JNum (Fin 2)\<rparr>"
  have a: "dir_attribute ?p = JStr ''  D-To-U ''" by code_simp
  have v: "toLowerCase (trim ''  D-To-U '') = ''d-to-u''" by code_simp
  have pd: "parseDirFromProps plane_builtins ?p = Some ''d_to_u''"
    using direction_decision_priority[where B=plane_builtins and p="?p" and s="''  D-To-U ''"] a v
    by simp
  have l1: "load_direction plane_builtins ?p = (''d_to_u'', ''DIR'')"
    using direction_decision_priority[where B=plane_builtins and p="?p" and d="''d_to_u''"] pd
    by simp
  have qn: "parseDirFromProps plane_builtins ?q = None" by code_simp
  have qu: "toNum plane_builtins (UPSTREAM_IL ?q) = Some 2" by code_simp
  have qd: "toNum plane_builtins (DOWNSTREAM_IL ?q) = Some 3" by code_simp
  have l2: "load_direction plane_builtins ?q = (''d_to_u'', ''IL'')"
    using direction_decision_priority[where B=plane_builtins and p="?q" and u=2 and dn=3] qn qu qd
    by simp
  have rn: "parseDirFromProps plane_builtins ?r = None" by code_simp
  have rd: "toNum plane_builtins (DOWNSTREAM_IL ?r) = None" by code_simp
  have l3: "load_direction plane_builtins ?r = (''u_to_d'', ''default'')"
    using direction_decision_priority[where B=plane_builtins and p="?r"] rn rd
    by simp
  from a l1 l2 l3 show ?thesis by simp
qed

section \<open>Properties of the greedy walk\<close>

lemma trace_body_no_throw: "trace_body B sp g s \<noteq> Throw e"
proof -
  have "chooseNextPipeDirOnly B nextIds g ord prev vis \<noteq> Inl e'" if "2 \<le> length ord"
    for nextIds ord prev vis e'
  proof -
    from that have "ord \<noteq> []" by auto
    with chooseNextPipeDirOnly_cases[OF refl, where B=B and nextIds=nextIds and prevId=prev
        and visited=vis and byObjectId=g and cs=ord]
    show ?thesis by auto
  qed
  then show ?thesis
    by (auto simp: trace_body_def Let_def not_less split: option.splits sum.splits)
qed

text \<open>What a run of the body does to the hop counter and to the set of visited segments.\<close>

lemma trace_body_visited:
  "trace_body B sp g s = Break s' \<or> trace_body B sp g s = Continue s' \<Longrightarrow>
   t_hop s' = t_hop s \<and>
   (t_visited s' = t_visited s \<or>
    (\<exists>cid. cid \<notin> t_visited s \<and> t_visited s' = insert cid (t_visited s)))"
  by (auto simp: trace_body_def Let_def emit_pipe_def case_prod_beta
           split: option.splits sum.splits if_splits bool.splits)

lemma trace_loop_bound:
  "finite (t_visited s) \<Longrightarrow> card (t_visited s) \<le> t_hop s \<Longrightarrow> t_hop s \<le> n \<Longrightarrow>
   \<exists>s'. trace_loop B sp g n s = Inr s' \<and> t_hop s' \<le> n \<and>
        finite (t_visited s') \<and> card (t_visited s') \<le> n"
proof (induction B sp g n s rule: trace_loop.induct)
  case (1 B sp g n s)
  show ?case
  proof (cases "t_hop s < n")
    case False
    with "1.prems" show ?thesis by (subst trace_loop.simps) simp
  next
    case True
    show ?thesis
    proof (cases "trace_body B sp g s")
      case (Break s')
      with trace_body_visited[of B sp g s s'] "1.prems" True
      have "t_hop s' \<le> n \<and> finite (t_visited s') \<and> card (t_visited s') \<le> n"
        by (auto simp: card_insert_if)
      with Break True show ?thesis by (subst trace_loop.simps) simp
    next
      case (Throw e)
      with trace_body_no_throw show ?thesis by blast
    next
      case (Continue s')
      with trace_body_visited[of B sp g s s'] "1.prems" True
      have "finite (t_visited (s'\<lparr>t_hop := t_hop s + 1\<rparr>)) \<and>
            card (t_visited (s'\<lparr>t_hop := t_hop s + 1\<rparr>)) \<le> t_hop (s'\<lparr>t_hop := t_hop s + 1\<rparr>) \<and>
            t_hop (s'\<lparr>t_hop := t_hop s + 1\<rparr>) \<le> n"
        by (auto simp: card_insert_if)
      with "1.IH"[OF _ Continue] True
      have "\<exists>s''. trace_loop B sp g n (s'\<lparr>t_hop := t_hop s + 1\<rparr>) = Inr s'' \<and> t_hop s'' \<le> n \<and>
        finite (t_visited s'') \<and> card (t_visited s'') \<le> n" by simp
      with Continue True show ?thesis by (subst trace_loop.simps) simp
    qed
  qed
qed

lemma latlng_copy: "\<lparr> lat = lat p, lng = lng p \<rparr> = (p :: latlng)"
  by (cases p) simp

lemma entry_prefix_simps:
  "entry_prefix sp (s\<lparr>t_visited := vis\<rparr>) = entry_prefix sp s"
  "entry_prefix sp (s\<lparr>t_prevId := a, t_currentId := b\<rparr>) = entry_prefix sp s"
  "entry_prefix sp (s\<lparr>t_hop := h\<rparr>) = entry_prefix sp s"
  "entry_prefix sp (s\<lparr>t_plan := pl, t_visitedCells := c\<rparr>) = entry_prefix sp s"
  by (simp_all add: entry_prefix_def split: option.splits)

lemma pushPoint_inv: "cells_inv B pre acc \<Longrightarrow> cells_inv B pre (pushPoint B acc p)"
proof -
  assume "cells_inv B pre acc"
  then obtain body where b: "fst acc = pre @ body" "distinct (map (gridKey B) body)"
      "gridKey B ` set body = snd acc"
    by (auto simp: cells_inv_def)
  show ?thesis
  proof (cases "gridKey B p \<in> snd acc")
    case True
    then have "pushPoint B acc p = acc" by (simp add: pushPoint_def)
    with b show ?thesis by (auto simp: cells_inv_def)
  next
    case False
    then have e: "pushPoint B acc p = (pre @ (body @ [p]), insert (gridKey B p) (snd acc))"
      using b(1) by (simp add: pushPoint_def)
    have "distinct (map (gridKey B) (body @ [p]))" using b(2,3) False by auto
    moreover have "gridKey B ` set (body @ [p]) = insert (gridKey B p) (snd acc)"
      using b(3) by auto
    ultimately show ?thesis unfolding cells_inv_def e by (intro exI[of _ "body @ [p]"]) simp
  qed
qed

lemma fold_pushPoint_inv:
  "cells_inv B pre acc \<Longrightarrow>
   cells_inv B pre (foldl (\<lambda>acc p. if skip acc p then acc else pushPoint B acc p) acc ps)"
  by (induction ps arbitrary: acc) (simp_all add: pushPoint_inv)

lemma fold_pushPoint_inv_plain:
  "cells_inv B pre acc \<Longrightarrow> cells_inv B pre (foldl (pushPoint B) acc ps)"
  by (induction ps arbitrary: acc) (simp_all add: pushPoint_inv)

lemma emit_pipe_inv:
  assumes "trace_inv B sp s"
  shows "trace_inv B sp (emit_pipe B sp ord s)"
proof (cases "t_first s \<and> sp \<noteq> None")
  case True
  then obtain p where p: "sp = Some p" and f: "t_first s" by auto
  with assms have e: "t_plan s = []" "t_visitedCells s = {}"
    by (auto simp: trace_inv_def cells_inv_def entry_prefix_def)
  have "cells_inv B [p] ([p], {})" by (simp add: cells_inv_def)
  then have "cells_inv B [p] (foldl (pushPoint B) ([p], {}) (drop (nearestIdx B p ord) ord))"
    by (rule fold_pushPoint_inv_plain)
  then show ?thesis using p f e
    by (simp add: emit_pipe_def trace_inv_def entry_prefix_def Let_def case_prod_beta latlng_copy)
next
  case False
  define lst where "lst = (if t_plan s = [] then None else Some (last (t_plan s)))"
  define r where "r = foldl (\<lambda>acc p. if near_last B lst p then acc else pushPoint B acc p)
      (t_plan s, t_visitedCells s) ord"
  have em: "emit_pipe B sp ord s = s\<lparr>t_plan := fst r, t_visitedCells := snd r\<rparr>"
    using False unfolding r_def lst_def
    by (cases sp; cases "t_first s") (simp_all add: emit_pipe_def Let_def case_prod_beta)
  have pre: "entry_prefix sp (emit_pipe B sp ord s) = entry_prefix sp s"
    by (simp add: em entry_prefix_simps)
  from assms have "cells_inv B (entry_prefix sp s) (t_plan s, t_visitedCells s)"
    by (simp add: trace_inv_def)
  then have "cells_inv B (entry_prefix sp s) r" unfolding r_def by (rule fold_pushPoint_inv)
  with False pre show ?thesis by (auto simp: trace_inv_def em)
qed

lemma trace_body_inv:
  assumes "trace_inv B sp s"
    and "trace_body B sp g s = Break s' \<or> trace_body B sp g s = Continue s'"
  shows "trace_inv B sp s'"
proof -
  have v: "trace_inv B sp (s\<lparr>t_visited := vis\<rparr>)" for vis
    using assms(1) by (simp add: trace_inv_def entry_prefix_simps)
  have u: "trace_inv B sp (t\<lparr>t_prevId := a, t_currentId := b\<rparr>)" if "trace_inv B sp t" for t a b
    using that by (simp add: trace_inv_def entry_prefix_simps)
  from assms(2) show ?thesis
    using assms(1) v u emit_pipe_inv[OF v]
    by (auto simp: trace_body_def Let_def split: option.splits sum.splits if_splits)
qed

lemma trace_loop_inv:
  "trace_inv B sp s \<Longrightarrow> trace_loop B sp g n s = Inr s' \<Longrightarrow> trace_inv B sp s'"
proof (induction B sp g n s rule: trace_loop.induct)
  case (1 B sp g n s)
  show ?case
  proof (cases "t_hop s < n")
    case False
    with "1.prems" show ?thesis by (subst (asm) trace_loop.simps) simp
  next
    case True
    show ?thesis
    proof (cases "trace_body B sp g s")
      case (Break t)
      with "1.prems"(2) True have "s' = t" by (subst (asm) trace_loop.simps) simp
      with trace_body_inv[OF "1.prems"(1), of g t] Break show ?thesis by simp
    next
      case (Throw e)
      with trace_body_no_throw show ?thesis by blast
    next
      case (Continue t)
      from trace_body_inv[OF "1.prems"(1), of g t] Continue
      have "trace_inv B sp (t\<lparr>t_hop := t_hop s + 1\<rparr>)"
        by (simp add: trace_inv_def entry_prefix_simps)
      moreover from "1.prems"(2) True Continue
      have "trace_loop B sp g n (t\<lparr>t_hop := t_hop s + 1\<rparr>) = Inr s'"
        by (subst (asm) trace_loop.simps) simp
      ultimately show ?thesis using "1.IH"[OF _ Continue] True by simp
    qed
  qed
qed

lemma greedy_plan_cells:
  assumes "buildPipePlanFromObjectId B sid sp g n = Inr plan"
  shows "case sp of None \<Rightarrow> distinct (map (gridKey B) plan)
         | Some p \<Rightarrow> plan = [] \<or> (\<exists>body. plan = p # body \<and> distinct (map (gridKey B) body))"
proof -
  from assms obtain s' where s': "trace_loop B sp g n (trace_init sid) = Inr s'" "plan = t_plan s'"
    by (auto simp: buildPipePlanFromObjectId_def split: sum.splits)
  have "trace_inv B sp (trace_init sid)"
    by (simp add: trace_inv_def trace_init_def cells_inv_def entry_prefix_def split: option.splits)
  from trace_loop_inv[OF this s'(1)] s'(2) show ?thesis
    by (auto simp: trace_inv_def cells_inv_def entry_prefix_def split: option.splits if_splits)
qed

section \<open>Properties of the depth-first search\<close>

lemma lex_lessI:
  "x < y \<Longrightarrow> length xs = length ys \<Longrightarrow> (pre @ x # xs, pre @ y # ys) \<in> lex less_than"
  by (auto simp: lex_conv)

lemma frame_weight_pos: "0 < frame_weight g f"
  by (simp add: frame_weight_def split: option.splits)

lemma pickCandidateOrder_length:
  "length (pickCandidateOrder B cands g ft) = length cands"
  by (simp add: pickCandidateOrder_def Let_def)

lemma getCandidates_length:
  "length (getCandidates ft prev) \<le> length (case x_nextObjectIds (props_of ft) of Some l \<Rightarrow> l | None \<Rightarrow> [])"
  by (simp add: getCandidates_def)


lemma pad_Suc: "k < n \<Longrightarrow> replicate (n - k) (0::nat) = 0 # replicate (n - Suc k) 0"
proof -
  assume "k < n"
  then have "n - k = Suc (n - Suc k)" by arith
  then show ?thesis by simp
qed

lemma frames_measure_pop:
  assumes "length rest < n"
  shows "(frames_measure g n rest, frames_measure g n (tp # rest)) \<in> lex less_than"
proof -
  have "(rev (map (frame_weight g) rest) @ 0 # replicate (n - Suc (length rest)) 0,
         rev (map (frame_weight g) rest) @ frame_weight g tp # replicate (n - Suc (length rest)) 0)
        \<in> lex less_than"
    by (rule lex_lessI) (simp_all add: frame_weight_pos)
  then show ?thesis using pad_Suc[OF assms] by (simp add: frames_measure_def)
qed

lemma frames_measure_upd:
  assumes "frame_weight g tp' < frame_weight g tp"
  shows "(frames_measure g n (tp' # rest), frames_measure g n (tp # rest)) \<in> lex less_than"
proof -
  have "(rev (map (frame_weight g) rest) @ frame_weight g tp' # replicate (n - Suc (length rest)) 0,
         rev (map (frame_weight g) rest) @ frame_weight g tp # replicate (n - Suc (length rest)) 0)
        \<in> lex less_than"
    by (rule lex_lessI) (simp_all add: assms)
  then show ?thesis by (simp add: frames_measure_def)
qed

lemma frames_measure_push:
  assumes "Suc (length rest) < n" and "frame_weight g tp' < frame_weight g tp"
  shows "(frames_measure g n (new # tp' # rest), frames_measure g n (tp # rest)) \<in> lex less_than"
proof -
  have "(rev (map (frame_weight g) rest) @ frame_weight g tp' #
           (frame_weight g new # replicate (n - Suc (Suc (length rest))) 0),
         rev (map (frame_weight g) rest) @ frame_weight g tp # replicate (n - Suc (length rest)) 0)
        \<in> lex less_than"
    using assms by (intro lex_lessI) auto
  then show ?thesis by (simp add: frames_measure_def)
qed

text \<open>One run of the loop body keeps the invariant and lowers the measure.\<close>

lemma dfs_step_decreases:
  assumes inv: "dfs_inv n s" and cond: "dfs_cond n s"
  shows "dfs_inv n (dfs_step B g s) \<and>
         (dfs_measure g n (dfs_step B g s), dfs_measure g n s) \<in> less_than <*lex*> lex less_than"
proof -
  from cond obtain tp rest where fr: "d_frames s = tp # rest"
    by (cases "d_frames s") (auto simp: dfs_cond_def)
  from cond have nf: "\<not> d_found s" and lp: "length (d_path s) < n" by (auto simp: dfs_cond_def)
  from inv fr have len: "Suc (length rest) = length (d_path s)" by (simp add: dfs_inv_def)
  with lp have ln: "Suc (length rest) < n \<or> Suc (length rest) < n + 1" and lr: "length rest < n" by auto
  from len obtain x xs where pa: "d_path s = x # xs" "length xs = length rest"
    by (cases "d_path s") auto
  define s0 where "s0 = s\<lparr>d_iters := d_iters s + 1\<rparr>"
  have s0: "d_frames s0 = tp # rest" "d_path s0 = x # xs" "d_inPath s0 = d_inPath s" "d_found s0 = d_found s"
    by (simp_all add: s0_def fr pa)
  have st: "dfs_step B g s = dfs_body B g s0" by (simp add: dfs_step_def s0_def)
  have s0f: "s0\<lparr>d_frames := tp # rest\<rparr> = s0" by (simp add: s0_def fr)
  have pop: "dfs_inv n (dfs_pop (s0\<lparr>d_frames := t # rest\<rparr>)) \<and>
      (dfs_measure g n (dfs_pop (s0\<lparr>d_frames := t # rest\<rparr>)), dfs_measure g n s)
        \<in> less_than <*lex*> lex less_than" if "frame_weight g t \<le> frame_weight g tp" for t
  proof -
    have e: "dfs_pop (s0\<lparr>d_frames := t # rest\<rparr>) =
        s0\<lparr>d_frames := rest, d_path := xs, d_inPath := d_inPath s - {x}\<rparr>"
      by (simp add: dfs_pop_def s0)
    have "(frames_measure g n rest, frames_measure g n (tp # rest)) \<in> lex less_than"
      using lr by (rule frames_measure_pop)
    then show ?thesis using nf pa(2) lr by (simp add: e dfs_measure_def dfs_inv_def s0 fr)
  qed
  show ?thesis
  proof (cases "g (f_id tp)")
    case None
    have "dfs_step B g s = dfs_pop (s0\<lparr>d_frames := tp # rest\<rparr>)"
      using None by (simp add: st dfs_body_def s0 s0f)
    with pop[of tp] show ?thesis by simp
  next
    case (Some ft)
    show ?thesis
    proof (cases "f_id tp \<in> TARGET_PIPE_IDS")
      case True
      have "dfs_step B g s = s0\<lparr>d_found := True\<rparr>"
        using Some True by (simp add: st dfs_body_def s0)
      then show ?thesis using inv nf by (simp add: dfs_measure_def dfs_inv_def s0_def)
    next
      case False
      define tp1 where "tp1 = (case f_ordered tp of
            None \<Rightarrow> tp\<lparr> f_ordered := Some (pickCandidateOrder B
                      (getCandidates (Some ft) (f_prevId tp)) g (Some ft)), f_idx := 0 \<rparr>
          | Some _ \<Rightarrow> tp)"
      define ordered where "ordered = (case f_ordered tp1 of Some l \<Rightarrow> l | None \<Rightarrow> [])"
      define tp2 where "tp2 = tp1\<lparr> f_idx := f_idx tp1 + 1 \<rparr>"
      define nextId where "nextId = ordered ! f_idx tp1"
      have o1: "f_ordered tp1 = Some ordered"
        by (cases "f_ordered tp") (simp_all add: tp1_def ordered_def)
      have w1: "frame_weight g tp1 \<le> frame_weight g tp"
      proof (cases "f_ordered tp")
        case None
        have "length (pickCandidateOrder B (getCandidates (Some ft) (f_prevId tp)) g (Some ft))
              \<le> length (case x_nextObjectIds (props_of (Some ft)) of Some l \<Rightarrow> l | None \<Rightarrow> [])"
          using getCandidates_length[of "Some ft" "f_prevId tp"]
          by (simp add: pickCandidateOrder_length)
        then show ?thesis using None Some by (simp add: tp1_def frame_weight_def)
      next
        case (Some l)
        then show ?thesis by (simp add: tp1_def)
      qed
      have w2: "frame_weight g tp2 < frame_weight g tp" if "f_idx tp1 < length ordered"
      proof -
        have "frame_weight g tp2 < frame_weight g tp1"
          using that o1 by (simp add: tp2_def frame_weight_def)
        with w1 show ?thesis by simp
      qed
      have unf: "dfs_step B g s =
          (if f_idx tp1 \<ge> length ordered then dfs_pop (s0\<lparr> d_frames := tp1 # rest \<rparr>)
           else if nextId \<in> d_inPath s then s0\<lparr> d_frames := tp2 # rest \<rparr>
           else s0\<lparr> d_frames := \<lparr> f_id = nextId, f_prevId = Some (f_id tp),
                                    f_idx = 0, f_ordered = None \<rparr> # tp2 # rest,
                     d_path := nextId # d_path s0,
                     d_inPath := insert nextId (d_inPath s0) \<rparr>)"
        using Some False
        unfolding st dfs_body_def tp1_def ordered_def tp2_def nextId_def
        by (simp add: s0 Let_def)
      show ?thesis
      proof (cases "f_idx tp1 \<ge> length ordered")
        case True
        with pop[OF w1] show ?thesis by (simp add: unf)
      next
        case idx: False
        then have w: "frame_weight g tp2 < frame_weight g tp" using w2 by simp
        show ?thesis
        proof (cases "nextId \<in> d_inPath s")
          case True
          have "(frames_measure g n (tp2 # rest), frames_measure g n (tp # rest)) \<in> lex less_than"
            using w by (rule frames_measure_upd)
          then show ?thesis using idx True inv nf
            by (simp add: unf dfs_measure_def dfs_inv_def s0 fr pa)
        next
          case nin: False
          have l2: "Suc (length rest) < n" using len lp by simp
          have "(frames_measure g n (\<lparr> f_id = nextId, f_prevId = Some (f_id tp),
                    f_idx = 0, f_ordered = None \<rparr> # tp2 # rest), frames_measure g n (tp # rest))
                \<in> lex less_than"
            using l2 w by (rule frames_measure_push)
          then show ?thesis using idx nin inv nf lp pa
            by (simp add: unf dfs_measure_def dfs_inv_def s0 fr)
        qed
      qed
    qed
  qed
qed

lemma dfs_inv_init: "dfs_inv n (dfs_init sid)"
  by (simp add: dfs_inv_def dfs_init_def)

lemma dfs_search_terminates:
  "\<exists>s. dfs_search B sid g n = Some s \<and> dfs_inv n s \<and> \<not> dfs_cond n s"
proof -
  have wf: "wf {(t, s). (dfs_inv n s \<and> dfs_cond n s) \<and> t = dfs_step B g s}"
  proof (rule wf_subset)
    show "wf (inv_image (less_than <*lex*> lex less_than) (dfs_measure g n))"
      by (intro wf_inv_image wf_lex_prod wf_less_than wf_lex)
    show "{(t, s). (dfs_inv n s \<and> dfs_cond n s) \<and> t = dfs_step B g s}
          \<subseteq> inv_image (less_than <*lex*> lex less_than) (dfs_measure g n)"
      using dfs_step_decreases[of n _ B g] by (auto simp: inv_image_def)
  qed
  have "\<exists>t. while_option (dfs_cond n) (dfs_step B g) (dfs_init sid) = Some t"
    by (rule wf_while_option_Some[OF wf]) (simp_all add: dfs_step_decreases dfs_inv_init)
  then obtain t where t: "dfs_search B sid g n = Some t" by (auto simp: dfs_search_def)
  then have w: "while_option (dfs_cond n) (dfs_step B g) (dfs_init sid) = Some t"
    by (simp add: dfs_search_def)
  have "dfs_inv n t"
    by (rule while_option_rule[where P="dfs_inv n", OF _ w dfs_inv_init])
       (simp add: dfs_step_decreases)
  moreover have "\<not> dfs_cond n t" using while_option_stop[OF w] .
  ultimately show ?thesis using t by blast
qed

lemma getChoices_length:
  "g i = Some ft \<Longrightarrow>
   length (getChoices B g i prev)
     \<le> length (case x_nextObjectIds (props_of (Some ft)) of Some l \<Rightarrow> l | None \<Rightarrow> [])"
  by (cases prev) (simp_all add: getChoices_def pickCandidateOrder_area_def Let_def)

text \<open>The same for the search over choices.\<close>

lemma choices_step_decreases:
  assumes inv: "dfs_inv n s" and cond: "dfs_cond n s"
  shows "dfs_inv n (choices_step B g s) \<and>
         (dfs_measure g n (choices_step B g s), dfs_measure g n s) \<in> less_than <*lex*> lex less_than"
proof -
  from cond obtain tp rest where fr: "d_frames s = tp # rest"
    by (cases "d_frames s") (auto simp: dfs_cond_def)
  from cond have nf: "\<not> d_found s" and lp: "length (d_path s) < n" by (auto simp: dfs_cond_def)
  from inv fr have len: "Suc (length rest) = length (d_path s)" by (simp add: dfs_inv_def)
  with lp have ln: "Suc (length rest) < n \<or> Suc (length rest) < n + 1" and lr: "length rest < n" by auto
  from len obtain x xs where pa: "d_path s = x # xs" "length xs = length rest"
    by (cases "d_path s") auto
  define s0 where "s0 = s\<lparr>d_iters := d_iters s + 1\<rparr>"
  have s0: "d_frames s0 = tp # rest" "d_path s0 = x # xs" "d_inPath s0 = d_inPath s" "d_found s0 = d_found s"
    by (simp_all add: s0_def fr pa)
  have st: "choices_step B g s = choices_body B g s0" by (simp add: choices_step_def s0_def)
  have s0f: "s0\<lparr>d_frames := tp # rest\<rparr> = s0" by (simp add: s0_def fr)
  have pop: "dfs_inv n (dfs_pop (s0\<lparr>d_frames := t # rest\<rparr>)) \<and>
      (dfs_measure g n (dfs_pop (s0\<lparr>d_frames := t # rest\<rparr>)), dfs_measure g n s)
        \<in> less_than <*lex*> lex less_than" if "frame_weight g t \<le> frame_weight g tp" for t
  proof -
    have e: "dfs_pop (s0\<lparr>d_frames := t # rest\<rparr>) =
        s0\<lparr>d_frames := rest, d_path := xs, d_inPath := d_inPath s - {x}\<rparr>"
      by (simp add: dfs_pop_def s0)
    have "(frames_measure g n rest, frames_measure g n (tp # rest)) \<in> lex less_than"
      using lr by (rule frames_measure_pop)
    then show ?thesis using nf pa(2) lr by (simp add: e dfs_measure_def dfs_inv_def s0 fr)
  qed
  show ?thesis
  proof (cases "g (f_id tp)")
    case None
    have "choices_step B g s = dfs_pop (s0\<lparr>d_frames := tp # rest\<rparr>)"
      using None by (simp add: st choices_body_def s0 s0f)
    with pop[of tp] show ?thesis by simp
  next
    case (Some ft)
    show ?thesis
    proof (cases "f_id tp \<in> TARGET_PIPE_IDS")
      case True
      have "choices_step B g s = s0\<lparr>d_found := True\<rparr>"
        using Some True by (simp add: st choices_body_def s0)
      then show ?thesis using inv nf by (simp add: dfs_measure_def dfs_inv_def s0_def)
    next
      case False
      define tp1 where "tp1 = (case f_ordered tp of
            None \<Rightarrow> tp\<lparr> f_ordered := Some (getChoices B g (f_id tp) (f_prevId tp)), f_idx := 0 \<rparr>
          | Some _ \<Rightarrow> tp)"
      define ordered where "ordered = (case f_ordered tp1 of Some l \<Rightarrow> l | None \<Rightarrow> [])"
      define tp2 where "tp2 = tp1\<lparr> f_idx := f_idx tp1 + 1 \<rparr>"
      define nextId where "nextId = ordered ! f_idx tp1"
      have o1: "f_ordered tp1 = Some ordered"
        by (cases "f_ordered tp") (simp_all add: tp1_def ordered_def)
      have w1: "frame_weight g tp1 \<le> frame_weight g tp"
      proof (cases "f_ordered tp")
        case None
        have "length (getChoices B g (f_id tp) (f_prevId tp))
              \<le> length (case x_nextObjectIds (props_of (Some ft)) of Some l \<Rightarrow> l | None \<Rightarrow> [])"
          using \<open>g (f_id tp) = Some ft\<close> by (rule getChoices_length)
        then show ?thesis using None Some by (simp add: tp1_def frame_weight_def)
      next
        case (Some l)
        then show ?thesis by (simp add: tp1_def)
      qed
      have w2: "frame_weight g tp2 < frame_weight g tp" if "f_idx tp1 < length ordered"
      proof -
        have "frame_weight g tp2 < frame_weight g tp1"
          using that o1 by (simp add: tp2_def frame_weight_def)
        with w1 show ?thesis by simp
      qed
      have unf: "choices_step B g s =
          (if f_idx tp1 \<ge> length ordered then dfs_pop (s0\<lparr> d_frames := tp1 # rest \<rparr>)
           else if nextId \<in> d_inPath s then s0\<lparr> d_frames := tp2 # rest \<rparr>
           else s0\<lparr> d_frames := \<lparr> f_id = nextId, f_prevId = Some (f_id tp),
                                    f_idx = 0, f_ordered = None \<rparr> # tp2 # rest,
                     d_path := nextId # d_path s0,
                     d_inPath := insert nextId (d_inPath s0) \<rparr>)"
        using Some False
        unfolding st choices_body_def tp1_def ordered_def tp2_def nextId_def
        by (simp add: s0 Let_def)
      show ?thesis
      proof (cases "f_idx tp1 \<ge> length ordered")
        case True
        with pop[OF w1] show ?thesis by (simp add: unf)
      next
        case idx: False
        then have w: "frame_weight g tp2 < frame_weight g tp" using w2 by simp
        show ?thesis
        proof (cases "nextId \<in> d_inPath s")
          case True
          have "(frames_measure g n (tp2 # rest), frames_measure g n (tp # rest)) \<in> lex less_than"
            using w by (rule frames_measure_upd)
          then show ?thesis using idx True inv nf
            by (simp add: unf dfs_measure_def dfs_inv_def s0 fr pa)
        next
          case nin: False
          have l2: "Suc (length rest) < n" using len lp by simp
          have "(frames_measure g n (\<lparr> f_id = nextId, f_prevId = Some (f_id tp),
                    f_idx = 0, f_ordered = None \<rparr> # tp2 # rest), frames_measure g n (tp # rest))
                \<in> lex less_than"
            using l2 w by (rule frames_measure_push)
          then show ?thesis using idx nin inv nf lp pa
            by (simp add: unf dfs_measure_def dfs_inv_def s0 fr)
        qed
      qed
    qed
  qed
qed

lemma choices_search_terminates:
  "\<exists>s. choices_search B sid g n = Some s \<and> dfs_inv n s \<and> \<not> dfs_cond n s"
proof -
  have wf: "wf {(t, s). (dfs_inv n s \<and> dfs_cond n s) \<and> t = choices_step B g s}"
  proof (rule wf_subset)
    show "wf (inv_image (less_than <*lex*> lex less_than) (dfs_measure g n))"
      by (intro wf_inv_image wf_lex_prod wf_less_than wf_lex)
    show "{(t, s). (dfs_inv n s \<and> dfs_cond n s) \<and> t = choices_step B g s}
          \<subseteq> inv_image (less_than <*lex*> lex less_than) (dfs_measure g n)"
      using choices_step_decreases[of n _ B g] by (auto simp: inv_image_def)
  qed
  have "\<exists>t. while_option (dfs_cond n) (choices_step B g) (dfs_init sid) = Some t"
    by (rule wf_while_option_Some[OF wf]) (simp_all add: choices_step_decreases dfs_inv_init)
  then obtain t where t: "choices_search B sid g n = Some t" by (auto simp: choices_search_def)
  then have w: "while_option (dfs_cond n) (choices_step B g) (dfs_init sid) = Some t"
    by (simp add: choices_search_def)
  have "dfs_inv n t"
    by (rule while_option_rule[where P="dfs_inv n", OF _ w dfs_inv_init])
       (simp add: choices_step_decreases)
  moreover have "\<not> dfs_cond n t" using while_option_stop[OF w] .
  ultimately show ?thesis using t by blast
qed

lemma emit_points_inv: "cells_inv B pre acc \<Longrightarrow> cells_inv B pre (emit_points B acc ps)"
  unfolding emit_points_def by (rule fold_pushPoint_inv)

lemma emit_path_pipe_inv:
  assumes "cells_inv B pre acc"
  shows "cells_inv B pre (emit_path_pipe B sp g acc e)"
proof (cases "g (snd e)")
  case None
  with assms show ?thesis by (simp add: emit_path_pipe_def)
next
  case (Some ft)
  show ?thesis
    using assms Some
    by (cases sp; cases "fst e = 0")
       (simp_all add: emit_path_pipe_def Let_def emit_points_inv pushPoint_inv)
qed

lemma emit_path_fold_inv:
  "cells_inv B pre acc \<Longrightarrow> cells_inv B pre (foldl (emit_path_pipe B sp g) acc es)"
  by (induction es arbitrary: acc) (simp_all add: emit_path_pipe_inv)

lemma emit_path_distinct: "distinct (map (gridKey B) (emit_path B sp g ids))"
proof -
  have "cells_inv B [] ([], {})" by (simp add: cells_inv_def)
  then have "cells_inv B [] (foldl (emit_path_pipe B sp g) ([], {}) (zip [0..<length ids] ids))"
    by (rule emit_path_fold_inv)
  then show ?thesis by (auto simp: emit_path_def cells_inv_def)
qed

section \<open>Termination and the step cap\<close>

text \<open>
  C1, as the code has it. Both tracers return for every graph, entry and cap. The greedy
  walk runs its loop body to the end at most \<open>maxHops\<close> times and visits at most
  \<open>maxHops\<close> segments. In the depth-first search the cap bounds the length of the path
  kept, not the number of runs of the loop body.
\<close>

theorem tracers_terminate:
  "(\<exists>s. trace_loop B startPoint byObjectId maxHops (trace_init startObjectId) = Inr s \<and>
        t_hop s \<le> maxHops \<and> finite (t_visited s) \<and> card (t_visited s) \<le> maxHops \<and>
        buildPipePlanFromObjectId B startObjectId startPoint byObjectId maxHops = Inr (t_plan s)) \<and>
   (\<exists>s. dfs_search B sid byObjectId maxSteps = Some s \<and> length (d_path s) \<le> max 1 maxSteps) \<and>
   (\<exists>plan. buildPipePlanFromObjectId_dfs B startObjectId startPoint byObjectId maxSteps = Some plan)"
proof -
  have "finite (t_visited (trace_init startObjectId :: 'a trace_state))"
       "card (t_visited (trace_init startObjectId :: 'a trace_state))
          \<le> t_hop (trace_init startObjectId :: 'a trace_state)"
       "t_hop (trace_init startObjectId :: 'a trace_state) \<le> maxHops"
    by (simp_all add: trace_init_def)
  from trace_loop_bound[OF this, of B startPoint byObjectId]
  obtain s where s: "trace_loop B startPoint byObjectId maxHops (trace_init startObjectId) = Inr s"
      "t_hop s \<le> maxHops" "finite (t_visited s)" "card (t_visited s) \<le> maxHops"
    by blast
  then have p1: "\<exists>s. trace_loop B startPoint byObjectId maxHops (trace_init startObjectId) = Inr s \<and>
        t_hop s \<le> maxHops \<and> finite (t_visited s) \<and> card (t_visited s) \<le> maxHops \<and>
        buildPipePlanFromObjectId B startObjectId startPoint byObjectId maxHops = Inr (t_plan s)"
    by (auto simp: buildPipePlanFromObjectId_def)
  have d: "\<exists>s. dfs_search B i byObjectId maxSteps = Some s \<and> length (d_path s) \<le> max 1 maxSteps" for i
    using dfs_search_terminates[of B i byObjectId maxSteps] by (auto simp: dfs_inv_def)
  have p3: "\<exists>plan. buildPipePlanFromObjectId_dfs B startObjectId startPoint byObjectId maxSteps = Some plan"
  proof (cases startObjectId)
    case None
    then show ?thesis by (simp add: buildPipePlanFromObjectId_dfs_def)
  next
    case (Some i)
    from d[of i] obtain t where "dfs_search B i byObjectId maxSteps = Some t" by blast
    with Some show ?thesis by (simp add: buildPipePlanFromObjectId_dfs_def)
  qed
  from p1 d[of sid] p3 show ?thesis by blast
qed

theorem tracers_terminate_witness:
  "buildPipePlanFromObjectId plane_builtins (Some 1) (Some (pt 0 0.000001)) chain_graph 2000 =
     Inr [pt 0 0.000001, pt 0 0, pt 0 1, pt 0 2, pt 0 3, pt 1 3] \<and>
   (\<exists>s. trace_loop plane_builtins (Some (pt 0 0.000001)) chain_graph 2 (trace_init (Some 1)) = Inr s \<and>
        t_hop s \<le> 2 \<and> card (t_visited s) \<le> 2) \<and>
   (\<exists>s. dfs_search plane_builtins 1 chain_graph 2 = Some s \<and> length (d_path s) \<le> 2) \<and>
   buildPipePlanFromObjectId_dfs plane_builtins (Some 1) (Some (pt 0 0.000001)) target_graph 6000 =
     Some [pt 0 0.000001, pt 0 1, pt 0 2, pt 1 2]"
proof -
  have a: "buildPipePlanFromObjectId plane_builtins (Some 1) (Some (pt 0 0.000001)) chain_graph 2000 =
     Inr [pt 0 0.000001, pt 0 0, pt 0 1, pt 0 2, pt 0 3, pt 1 3]" by code_simp
  have b: "buildPipePlanFromObjectId_dfs plane_builtins (Some 1) (Some (pt 0 0.000001)) target_graph 6000 =
     Some [pt 0 0.000001, pt 0 1, pt 0 2, pt 1 2]" by code_simp
  from tracers_terminate[where B=plane_builtins and startPoint="Some (pt 0 0.000001)" and byObjectId=chain_graph
      and maxHops=2 and startObjectId="Some 1" and sid=1 and maxSteps=2]
  have c: "(\<exists>s. trace_loop plane_builtins (Some (pt 0 0.000001)) chain_graph 2 (trace_init (Some 1)) = Inr s \<and>
        t_hop s \<le> 2 \<and> card (t_visited s) \<le> 2) \<and>
     (\<exists>s. dfs_search plane_builtins 1 chain_graph 2 = Some s \<and> length (d_path s) \<le> 2)"
    by auto
  from a b c show ?thesis by blast
qed

text \<open>
  The claim as stated fails for the depth-first search: on a pipe with two dead-end
  successors and a cap of 3 the loop body runs 5 times.
\<close>

theorem dfs_iterations_exceed_cap:
  "map_option d_iters (dfs_search plane_builtins 1 star_graph 3) = Some 5 \<and> (3::nat) < 5"
  by code_simp

section \<open>Grid cells of a plan\<close>

text \<open>
  C9, as the code has it. The plan of the depth-first variant has no two points in one
  grid cell, the start point included. In the plan of the greedy variant the points after
  the start point have pairwise different grid cells; the start point itself is appended
  without a look at its cell.
\<close>

theorem plan_grid_cells_distinct:
  "(buildPipePlanFromObjectId_dfs B startObjectId startPoint byObjectId maxSteps = Some plan \<longrightarrow>
      distinct (map (gridKey B) plan)) \<and>
   (buildPipePlanFromObjectId B startObjectId None byObjectId maxHops = Inr plan \<longrightarrow>
      distinct (map (gridKey B) plan)) \<and>
   (buildPipePlanFromObjectId B startObjectId (Some p) byObjectId maxHops = Inr plan \<longrightarrow>
      plan = [] \<or> (\<exists>body. plan = p # body \<and> distinct (map (gridKey B) body)))"
proof -
  have p1: "buildPipePlanFromObjectId_dfs B startObjectId startPoint byObjectId maxSteps = Some plan \<longrightarrow>
      distinct (map (gridKey B) plan)"
    by (auto simp: buildPipePlanFromObjectId_dfs_def emit_path_distinct
             split: option.splits if_splits)
  have p2: "buildPipePlanFromObjectId B startObjectId None byObjectId maxHops = Inr plan \<longrightarrow>
      distinct (map (gridKey B) plan)"
    using greedy_plan_cells[of B startObjectId None byObjectId maxHops plan] by simp
  have p3: "buildPipePlanFromObjectId B startObjectId (Some p) byObjectId maxHops = Inr plan \<longrightarrow>
      plan = [] \<or> (\<exists>body. plan = p # body \<and> distinct (map (gridKey B) body))"
    using greedy_plan_cells[of B startObjectId "Some p" byObjectId maxHops plan] by simp
  from p1 p2 p3 show ?thesis by blast
qed

theorem plan_grid_cells_distinct_witness:
  "buildPipePlanFromObjectId_dfs plane_builtins (Some 1) (Some (pt 0 0.000001)) target_graph 6000 =
     Some [pt 0 0.000001, pt 0 1, pt 0 2, pt 1 2] \<and>
   distinct (map (gridKey plane_builtins) [pt 0 0.000001, pt 0 1, pt 0 2, pt 1 2]) \<and>
   buildPipePlanFromObjectId plane_builtins (Some 1) None chain_graph 2000 =
     Inr [pt 0 0, pt 0 1, pt 0 2, pt 0 3, pt 1 3] \<and>
   distinct (map (gridKey plane_builtins) [pt 0 0, pt 0 1, pt 0 2, pt 0 3, pt 1 3]) \<and>
   buildPipePlanFromObjectId plane_builtins (Some 1) (Some (pt 0 0.000001)) chain_graph 2000 =
     Inr (pt 0 0.000001 # [pt 0 0, pt 0 1, pt 0 2, pt 0 3, pt 1 3])"
proof -
  have a: "buildPipePlanFromObjectId_dfs plane_builtins (Some 1) (Some (pt 0 0.000001)) target_graph 6000 =
     Some [pt 0 0.000001, pt 0 1, pt 0 2, pt 1 2]" by code_simp
  have b: "buildPipePlanFromObjectId plane_builtins (Some 1) None chain_graph 2000 =
     Inr [pt 0 0, pt 0 1, pt 0 2, pt 0 3, pt 1 3]" by code_simp
  have c: "buildPipePlanFromObjectId plane_builtins (Some 1) (Some (pt 0 0.000001)) chain_graph 2000 =
     Inr (pt 0 0.000001 # [pt 0 0, pt 0 1, pt 0 2, pt 0 3, pt 1 3])" by code_simp
  have d: "distinct (map (gridKey plane_builtins) [pt 0 0.000001, pt 0 1, pt 0 2, pt 1 2])"
    using plan_grid_cells_distinct[where B=plane_builtins and startObjectId="Some 1"
        and startPoint="Some (pt 0 0.000001)" and byObjectId=target_graph and maxSteps=6000
        and plan="[pt 0 0.000001, pt 0 1, pt 0 2, pt 1 2]"] a
    by simp
  have e: "distinct (map (gridKey plane_builtins) [pt 0 0, pt 0 1, pt 0 2, pt 0 3, pt 1 3])"
    using plan_grid_cells_distinct[where B=plane_builtins and startObjectId="Some 1"
        and byObjectId=chain_graph and maxHops=2000
        and plan="[pt 0 0, pt 0 1, pt 0 2, pt 0 3, pt 1 3]"] b
    by simp
  from a b c d e show ?thesis by blast
qed

text \<open>
  The claim as stated fails for the greedy variant: with the start point a tenth of a metre
  from the first vertex of pipe 1, hence in its grid cell, the plan holds two points of
  that cell.
\<close>

theorem entry_point_shares_cell:
  "buildPipePlanFromObjectId plane_builtins (Some 1) (Some (pt 0 0.000001)) chain_graph 2000 =
     Inr [pt 0 0.000001, pt 0 0, pt 0 1, pt 0 2, pt 0 3, pt 1 3] \<and>
   gridKey plane_builtins (pt 0 0.000001) = gridKey plane_builtins (pt 0 0) \<and>
   \<not> distinct (map (gridKey plane_builtins) [pt 0 0.000001, pt 0 0, pt 0 1, pt 0 2, pt 0 3, pt 1 3])"
  by code_simp

section \<open>Determinism\<close>

lemma same_topology_ordered:
  "same_topology g g' \<Longrightarrow> orderedCoordsForPipe B (g i) = orderedCoordsForPipe B (g' i)"
  by (simp add: same_topology_def orderedCoordsForPipe_def Let_def)

lemma same_topology_choose:
  assumes "same_topology g g'"
  shows "chooseNextPipeDirOnly B nextIds g cs prev vis = chooseNextPipeDirOnly B nextIds g' cs prev vis"
proof -
  have "bearing_step B g c = bearing_step B g' c" for c
    using same_topology_ordered[OF assms, of B] by (intro ext) (simp add: bearing_step_def)
  then show ?thesis by (simp add: chooseNextPipeDirOnly_def Let_def)
qed

lemma same_topology_body:
  assumes "same_topology g g'"
  shows "trace_body B sp g s = trace_body B sp g' s"
proof (cases "t_currentId s")
  case None
  then show ?thesis by (simp add: trace_body_def)
next
  case (Some cid)
  show ?thesis
  proof (cases "g cid")
    case None
    with assms have "g' cid = None" by (simp add: same_topology_def)
    with None Some show ?thesis by (simp add: trace_body_def)
  next
    case gs: (Some ft)
    from assms have "(g cid = None) = (g' cid = None)" by (simp add: same_topology_def)
    with gs obtain ft' where gs': "g' cid = Some ft'" by (cases "g' cid") auto
    have o: "orderedCoordsForPipe B (Some ft) = orderedCoordsForPipe B (Some ft')"
      using same_topology_ordered[OF assms, of B cid] gs gs' by simp
    have n: "x_nextObjectIds (props_of (Some ft)) = x_nextObjectIds (props_of (Some ft'))"
      using assms gs gs' by (auto simp: same_topology_def dest: spec[of _ cid])
    show ?thesis
      using Some gs gs' by (simp add: trace_body_def o n same_topology_choose[OF assms] Let_def)
  qed
qed

lemma same_topology_loop:
  "same_topology g g' \<Longrightarrow> trace_loop B sp g n s = trace_loop B sp g' n s"
proof (induction B sp g n s rule: trace_loop.induct)
  case (1 B sp g n s)
  note b = same_topology_body[OF "1.prems", of B sp s]
  show ?case
  proof (cases "t_hop s < n")
    case False
    then show ?thesis by (simp add: trace_loop.simps[of B sp g] trace_loop.simps[of B sp g'])
  next
    case True
    show ?thesis
    proof (cases "trace_body B sp g s")
      case (Break t)
      with b have b': "trace_body B sp g' s = Break t" by simp
      show ?thesis using True Break b'
        by (simp add: trace_loop.simps[of B sp g n s] trace_loop.simps[of B sp g' n s])
    next
      case (Throw e)
      with b have b': "trace_body B sp g' s = Throw e" by simp
      show ?thesis using True Throw b'
        by (simp add: trace_loop.simps[of B sp g n s] trace_loop.simps[of B sp g' n s])
    next
      case (Continue t)
      with b have b': "trace_body B sp g' s = Continue t" by simp
      from "1.IH"[OF _ Continue "1.prems"] True
      have "trace_loop B sp g n (t\<lparr>t_hop := t_hop s + 1\<rparr>) = trace_loop B sp g' n (t\<lparr>t_hop := t_hop s + 1\<rparr>)"
        by simp
      with True Continue b' show ?thesis
        by (simp add: trace_loop.simps[of B sp g n s] trace_loop.simps[of B sp g' n s])
    qed
  qed
qed

lemma same_network_ordered:
  "same_network g g' \<Longrightarrow>
   orderedCoordsForPipe_stitched B (g i) = orderedCoordsForPipe_stitched B (g' i)"
proof -
  assume a: "same_network g g'"
  then have geo: "map_option geometry (g i) = map_option geometry (g' i)"
    and d: "x_dir (props_of (g i)) = x_dir (props_of (g' i))"
    by (simp_all add: same_network_def)
  have "flattenFeatureCoords_stitched B (g i) = flattenFeatureCoords_stitched B (g' i)"
    using geo by (cases "g i"; cases "g' i") (simp_all add: flattenFeatureCoords_stitched_def)
  with d show ?thesis by (simp add: orderedCoordsForPipe_stitched_def Let_def)
qed

lemma same_network_order:
  assumes "same_network g g'"
  shows "pickCandidateOrder_area B cands g (g i) = pickCandidateOrder_area B cands g' (g' i)"
proof -
  have n: "sewer_name B (props_of (g j)) = sewer_name B (props_of (g' j))" for j
    using assms by (simp add: same_network_def sewer_name_def)
  have ar: "pipeAreaScore B (props_of (g j)) = pipeAreaScore B (props_of (g' j))" for j
    using assms by (simp add: same_network_def pipeAreaScore_def)
  show ?thesis by (simp add: pickCandidateOrder_area_def n ar Let_def)
qed

lemma same_network_choices:
  assumes "same_network g g'"
  shows "getChoices B g i prev = getChoices B g' i prev"
proof (cases "g i")
  case None
  with assms have "g' i = None" by (simp add: same_network_def)
  with None show ?thesis by (simp add: getChoices_def)
next
  case (Some ft)
  from assms have "(g i = None) = (g' i = None)" by (simp add: same_network_def)
  with Some obtain ft' where s': "g' i = Some ft'" by (cases "g' i") auto
  have n: "x_nextObjectIds (props_of (Some ft)) = x_nextObjectIds (props_of (Some ft'))"
    using assms Some s' by (auto simp: same_network_def dest: spec[of _ i])
  have o: "pickCandidateOrder_area B cands g (Some ft) = pickCandidateOrder_area B cands g' (Some ft')"
    for cands
    using same_network_order[OF assms, of B cands i] Some s' by simp
  show ?thesis using Some s' by (simp add: getChoices_def n o Let_def)
qed

lemma same_network_step:
  assumes "same_network g g'"
  shows "choices_step B g = choices_step B g'"
proof
  fix s
  have "choices_body B g t = choices_body B g' t" for t
  proof (cases "d_frames t")
    case Nil
    then show ?thesis by (simp add: choices_body_def)
  next
    case (Cons tp rest)
    from assms have e: "(g (f_id tp) = None) = (g' (f_id tp) = None)" by (simp add: same_network_def)
    show ?thesis
    proof (cases "g (f_id tp)")
      case None
      with e have "g' (f_id tp) = None" by simp
      with None Cons show ?thesis by (simp add: choices_body_def)
    next
      case (Some ft)
      with e obtain ft' where s': "g' (f_id tp) = Some ft'" by (cases "g' (f_id tp)") auto
      have c: "getChoices B g = getChoices B g'"
        by (intro ext) (rule same_network_choices[OF assms])
      show ?thesis using Cons Some s' unfolding choices_body_def c by simp
    qed
  qed
  then show "choices_step B g s = choices_step B g' s" by (simp add: choices_step_def)
qed

lemma same_network_emit:
  assumes "same_network g g'"
  shows "emit_choices B sp g ids = emit_choices B sp g' ids"
proof -
  have "emit_choices_pipe B sp g acc e = emit_choices_pipe B sp g' acc e" for acc e
  proof (cases "g (snd e)")
    case None
    with assms have "g' (snd e) = None" by (simp add: same_network_def)
    with None show ?thesis by (simp add: emit_choices_pipe_def)
  next
    case (Some ft)
    from assms have "(g (snd e) = None) = (g' (snd e) = None)" by (simp add: same_network_def)
    with Some obtain ft' where s': "g' (snd e) = Some ft'" by (cases "g' (snd e)") auto
    have o: "orderedCoordsForPipe_stitched B (Some ft) = orderedCoordsForPipe_stitched B (Some ft')"
      using same_network_ordered[OF assms, of B "snd e"] Some s' by simp
    show ?thesis using Some s' by (simp add: emit_choices_pipe_def o)
  qed
  then have "emit_choices_pipe B sp g = emit_choices_pipe B sp g'" by (intro ext)
  then show ?thesis by (simp add: emit_choices_def)
qed

lemma same_network_plan:
  assumes "same_network g g'"
  shows "\<exists>plan. buildPipePlanFromObjectId_choices B sid sp g n = Some plan \<and>
                buildPipePlanFromObjectId_choices B sid sp g' n = Some plan"
proof (cases sid)
  case None
  then show ?thesis by (simp add: buildPipePlanFromObjectId_choices_def)
next
  case (Some i)
  from choices_search_terminates[of B i g n] obtain s where s: "choices_search B i g n = Some s"
    by blast
  then have s': "choices_search B i g' n = Some s"
    by (simp add: choices_search_def same_network_step[OF assms])
  show ?thesis using Some s s' by (simp add: buildPipePlanFromObjectId_choices_def same_network_emit[OF assms])
qed

lemma same_topology_example: "same_topology chain_graph named_chain_graph"
  unfolding same_topology_def
proof
  fix i :: int
  consider "i = 1" | "i = 2" | "i = 3" | "i \<noteq> 1 \<and> i \<noteq> 2 \<and> i \<noteq> 3" by blast
  then show "(chain_graph i = None) = (named_chain_graph i = None) \<and>
          flattenFeatureCoords (chain_graph i) = flattenFeatureCoords (named_chain_graph i) \<and>
          x_dir (props_of (chain_graph i)) = x_dir (props_of (named_chain_graph i)) \<and>
          x_nextObjectIds (props_of (chain_graph i)) = x_nextObjectIds (props_of (named_chain_graph i))"
    by cases (simp_all add: chain_graph_def named_chain_graph_def pipe_def named_pipe_def
        flattenFeatureCoords_def props_of_def empty_props_def)
qed

lemma same_network_example: "same_network target_graph levelled_target_graph"
  unfolding same_network_def
proof
  fix i :: int
  consider "i = 1" | "i = 311851" | "i \<noteq> 1 \<and> i \<noteq> 311851" by blast
  then show "(target_graph i = None) = (levelled_target_graph i = None) \<and>
          map_option geometry (target_graph i) = map_option geometry (levelled_target_graph i) \<and>
          x_dir (props_of (target_graph i)) = x_dir (props_of (levelled_target_graph i)) \<and>
          x_nextObjectIds (props_of (target_graph i)) = x_nextObjectIds (props_of (levelled_target_graph i)) \<and>
          SEWER_NAME (props_of (target_graph i)) = SEWER_NAME (props_of (levelled_target_graph i)) \<and>
          SEWERNAME (props_of (target_graph i)) = SEWERNAME (props_of (levelled_target_graph i)) \<and>
          PIPE_WIDTH (props_of (target_graph i)) = PIPE_WIDTH (props_of (levelled_target_graph i)) \<and>
          PIPE_HEIGHT (props_of (target_graph i)) = PIPE_HEIGHT (props_of (levelled_target_graph i))"
    by cases (simp_all add: target_graph_def levelled_target_graph_def pipe_def
        props_of_def empty_props_def)
qed

text \<open>
  C2. The plan is a function of the entry (segment id and coordinate), of the cap and of
  what the tracer reads of the graph: two calls on one graph, or on two graphs that agree
  there, return the same plan, point for point. The greedy walk reads the topology; the
  backtracking search over choices also reads names, widths and heights, and it returns a
  plan on every graph.
\<close>

theorem plan_determined_by_topology:
  "(same_topology byObjectId byObjectId' \<longrightarrow>
      buildPipePlanFromObjectId B startObjectId startPoint byObjectId maxHops =
      buildPipePlanFromObjectId B startObjectId startPoint byObjectId' maxHops) \<and>
   (same_network byObjectId byObjectId' \<longrightarrow>
      (\<exists>plan. buildPipePlanFromObjectId_choices B startObjectId startPoint byObjectId maxSteps = Some plan \<and>
              buildPipePlanFromObjectId_choices B startObjectId startPoint byObjectId' maxSteps = Some plan))"
proof (intro conjI impI)
  assume "same_topology byObjectId byObjectId'"
  then have "trace_loop B startPoint byObjectId maxHops (trace_init startObjectId) =
             trace_loop B startPoint byObjectId' maxHops (trace_init startObjectId)"
    by (rule same_topology_loop)
  then show "buildPipePlanFromObjectId B startObjectId startPoint byObjectId maxHops =
      buildPipePlanFromObjectId B startObjectId startPoint byObjectId' maxHops"
    by (simp add: buildPipePlanFromObjectId_def)
next
  assume "same_network byObjectId byObjectId'"
  then show "\<exists>plan. buildPipePlanFromObjectId_choices B startObjectId startPoint byObjectId maxSteps = Some plan \<and>
              buildPipePlanFromObjectId_choices B startObjectId startPoint byObjectId' maxSteps = Some plan"
    by (rule same_network_plan)
qed

theorem plan_determined_by_topology_witness:
  "same_topology chain_graph named_chain_graph \<and>
   buildPipePlanFromObjectId plane_builtins (Some 2) (Some (pt 0 2.000001)) chain_graph 2000 =
     Inr [pt 0 2.000001, pt 0 2, pt 0 3, pt 1 3, pt 0 0, pt 0 1] \<and>
   buildPipePlanFromObjectId plane_builtins (Some 2) (Some (pt 0 2.000001)) named_chain_graph 2000 =
     Inr [pt 0 2.000001, pt 0 2, pt 0 3, pt 1 3, pt 0 0, pt 0 1] \<and>
   same_network target_graph levelled_target_graph \<and>
   buildPipePlanFromObjectId_choices plane_builtins (Some 1) (Some (pt 0 0.000001)) target_graph 8000 =
     Some [pt 0 0.000001, pt 0 1, pt 0 2, pt 1 2] \<and>
   buildPipePlanFromObjectId_choices plane_builtins (Some 1) (Some (pt 0 0.000001)) levelled_target_graph 8000 =
     Some [pt 0 0.000001, pt 0 1, pt 0 2, pt 1 2]"
proof -
  note t = plan_determined_by_topology[where B=plane_builtins and startObjectId="Some 2" and startPoint="Some (pt 0 2.000001)"
      and maxHops=2000 and byObjectId=chain_graph and byObjectId'=named_chain_graph]
  note n = plan_determined_by_topology[where B=plane_builtins and startObjectId="Some 1" and startPoint="Some (pt 0 0.000001)"
      and maxSteps=8000 and byObjectId=target_graph and byObjectId'=levelled_target_graph]
  have a: "buildPipePlanFromObjectId plane_builtins (Some 2) (Some (pt 0 2.000001)) chain_graph 2000 =
     Inr [pt 0 2.000001, pt 0 2, pt 0 3, pt 1 3, pt 0 0, pt 0 1]" by code_simp
  have b: "buildPipePlanFromObjectId_choices plane_builtins (Some 1) (Some (pt 0 0.000001)) target_graph 8000 =
     Some [pt 0 0.000001, pt 0 1, pt 0 2, pt 1 2]" by code_simp
  from t same_topology_example a
  have a': "buildPipePlanFromObjectId plane_builtins (Some 2) (Some (pt 0 2.000001)) named_chain_graph 2000 =
     Inr [pt 0 2.000001, pt 0 2, pt 0 3, pt 1 3, pt 0 0, pt 0 1]" by simp
  from n same_network_example b
  have b': "buildPipePlanFromObjectId_choices plane_builtins (Some 1) (Some (pt 0 0.000001))
      levelled_target_graph 8000 = Some [pt 0 0.000001, pt 0 1, pt 0 2, pt 1 2]" by auto
  from a a' b b' same_topology_example same_network_example show ?thesis by simp
qed

section \<open>Properties of gap bridging\<close>

lemma set_in_order_aux:
  "distinct acc \<Longrightarrow>
   distinct (foldl (\<lambda>acc x. if x \<in> set acc then acc else acc @ [x]) acc xs) \<and>
   set (foldl (\<lambda>acc x. if x \<in> set acc then acc else acc @ [x]) acc xs) = set acc \<union> set xs \<and>
   length (foldl (\<lambda>acc x. if x \<in> set acc then acc else acc @ [x]) acc xs) \<le> length acc + length xs"
proof (induction xs arbitrary: acc)
  case Nil
  then show ?case by simp
next
  case (Cons x xs)
  show ?case
  proof (cases "x \<in> set acc")
    case True
    with Cons.IH[OF Cons.prems] show ?thesis by auto
  next
    case False
    with Cons.prems have "distinct (acc @ [x])" by simp
    from Cons.IH[OF this] False show ?thesis by auto
  qed
qed

lemma set_in_order_props:
  "distinct (set_in_order xs)" "set (set_in_order xs) = set xs" "length (set_in_order xs) \<le> length xs"
  using set_in_order_aux[of "[]" xs] by (simp_all add: set_in_order_def)

lemma cell_candidates_mem:
  "c \<in> set (cell_candidates oid endM arr) \<Longrightarrow>
   \<exists>f \<in> set arr. fs_objectId f = bc_id c \<and> fs_objectId f \<noteq> oid \<and>
      bc_dM c = sqrt ((fs_mx f - fst endM) * (fs_mx f - fst endM) +
                      (fs_my f - snd endM) * (fs_my f - snd endM)) \<and>
      bc_dM c \<le> NODE_GAP_BRIDGE_MAX_M"
  by (auto simp: cell_candidates_def Let_def split: if_splits)

lemma bridge_candidates_mem:
  assumes "c \<in> set (bridge_candidates idx oid endM)"
  shows "\<exists>key \<in> set (nearbyFlowCellKeys (fst endM) (snd endM) NODE_GAP_BRIDGE_MAX_M).
           \<exists>arr. idx key = Some arr \<and>
             (\<exists>f \<in> set arr. fs_objectId f = bc_id c \<and> fs_objectId f \<noteq> oid \<and>
                bc_dM c = sqrt ((fs_mx f - fst endM) * (fs_mx f - fst endM) +
                                (fs_my f - snd endM) * (fs_my f - snd endM)) \<and>
                bc_dM c \<le> NODE_GAP_BRIDGE_MAX_M)"
proof -
  from assms obtain key where k: "key \<in> set (nearbyFlowCellKeys (fst endM) (snd endM) NODE_GAP_BRIDGE_MAX_M)"
      and c: "c \<in> set (case idx key of None \<Rightarrow> [] | Some arr \<Rightarrow> cell_candidates oid endM arr)"
    by (auto simp: bridge_candidates_def)
  from c obtain arr where a: "idx key = Some arr" "c \<in> set (cell_candidates oid endM arr)"
    by (cases "idx key") auto
  from cell_candidates_mem[OF a(2)] a(1) k show ?thesis by blast
qed

lemma bridge_filtered_subset: "set (bridge_filtered g p cs) \<subseteq> set cs"
  by (auto simp: bridge_filtered_def Let_def)

lemma bridge_filtered_same_name:
  assumes "js_truthy (bridge_name p)"
    and "\<exists>c \<in> set cs. bridge_name (props_of (g (bc_id c))) = bridge_name p"
    and "c \<in> set (bridge_filtered g p cs)"
  shows "bridge_name (props_of (g (bc_id c))) = bridge_name p"
proof -
  have "filter (\<lambda>cand. bridge_name (props_of (g (bc_id cand))) = bridge_name p) cs \<noteq> []"
    using assms(2) by (auto simp: filter_empty_conv)
  with assms(1,3) show ?thesis by (auto simp: bridge_filtered_def Let_def)
qed

lemma take_sorted_split:
  "\<exists>cs rest. mset (cs @ rest) = mset xs \<and> sorted (map f (cs @ rest)) \<and>
     length cs = min n (length xs) \<and> take n (sort_key f xs) = cs"
proof -
  let ?s = "sort_key f xs"
  have "mset (take n ?s @ drop n ?s) = mset xs" by simp
  moreover have "sorted (map f (take n ?s @ drop n ?s))" by simp
  moreover have "length (take n ?s) = min n (length xs)" by simp
  ultimately show ?thesis by blast
qed

lemma sqrt_examples:
  "sqrt 9 = 3" "sqrt 25 = 5" "sqrt 1600 = 40" "sqrt 2500 = 50"
  by (rule real_sqrt_unique; simp)+

text \<open>
  C6. Gap bridging, for a segment not flagged before. It is bridged only when node
  matching gave no successor, a flow end exists and a flow start lies within the bridge
  radius; otherwise its successors are those of the node match. When it is bridged, every
  successor is another segment with a flow start within the bridge radius of the flow end,
  taken from the cells around it; the successors all carry the name of the segment when it
  has one and some candidate shares it; and they are the ids, without repetition, of the
  three nearest candidates (or of all, when fewer) in ascending order of distance.
\<close>

theorem gap_bridging:
  assumes "\<not> x_next_via_gap_bridge props"
  shows
  "(let r = next_connections B flowStartsByCell byObjectId oid outObjectIds props;
        primary = node_match_next outObjectIds oid
    in (\<not> x_next_via_gap_bridge r \<longrightarrow> x_nextObjectIds r = Some primary) \<and>
       (primary = [] \<and> (\<exists>endPt. x_flowEndLL props = Some endPt \<and>
            bridge_candidates flowStartsByCell oid (flow_end_meters B endPt) \<noteq> [])
          \<longrightarrow> x_next_via_gap_bridge r) \<and>
       (x_next_via_gap_bridge r \<longrightarrow> primary = [] \<and>
          (\<exists>endPt nxt. x_flowEndLL props = Some endPt \<and> x_nextObjectIds r = Some nxt \<and>
             (let endM = flow_end_meters B endPt;
                  cands = bridge_candidates flowStartsByCell oid endM;
                  filtered = bridge_filtered byObjectId props cands
              in cands \<noteq> [] \<and> length nxt \<le> 3 \<and> distinct nxt \<and>
                 (\<forall>i \<in> set nxt. i \<noteq> oid \<and>
                    (\<exists>c \<in> set cands. bc_id c = i \<and> bc_dM c \<le> NODE_GAP_BRIDGE_MAX_M \<and>
                       (\<exists>key arr. flowStartsByCell key = Some arr \<and>
                          (\<exists>f \<in> set arr. fs_objectId f = i \<and>
                             bc_dM c = sqrt ((fs_mx f - fst endM) * (fs_mx f - fst endM) +
                                             (fs_my f - snd endM) * (fs_my f - snd endM)))))) \<and>
                 (js_truthy (bridge_name props) \<and>
                    (\<exists>c \<in> set cands. bridge_name (props_of (byObjectId (bc_id c))) = bridge_name props)
                    \<longrightarrow> (\<forall>i \<in> set nxt. bridge_name (props_of (byObjectId i)) = bridge_name props)) \<and>
                 (\<exists>cs rest. mset (cs @ rest) = mset filtered \<and> sorted (map bc_dM (cs @ rest)) \<and>
                    length cs = min 3 (length filtered) \<and> nxt = set_in_order (map bc_id cs))))))"
proof -
  define primary where "primary = node_match_next outObjectIds oid"
  define r where "r = next_connections B flowStartsByCell byObjectId oid outObjectIds props"
  show ?thesis
  proof (cases "primary = [] \<and> (\<exists>endPt. x_flowEndLL props = Some endPt \<and>
            bridge_candidates flowStartsByCell oid (flow_end_meters B endPt) \<noteq> [])")
    case False
    then have "r = props\<lparr> x_nextObjectIds := Some primary \<rparr>"
      unfolding r_def next_connections_def primary_def[symmetric]
      by (cases "x_flowEndLL props") (auto simp: Let_def split: bool.splits)
    with False assms show ?thesis
      unfolding Let_def primary_def[symmetric] r_def[symmetric] by simp
  next
    case True
    then obtain endPt where e: "primary = []" "x_flowEndLL props = Some endPt"
        "bridge_candidates flowStartsByCell oid (flow_end_meters B endPt) \<noteq> []"
      by blast
    define endM where "endM = flow_end_meters B endPt"
    define cands where "cands = bridge_candidates flowStartsByCell oid endM"
    define filtered where "filtered = bridge_filtered byObjectId props cands"
    define nxt where "nxt = set_in_order (map bc_id (take 3 (sort_key bc_dM filtered)))"
    have req: "r = props\<lparr> x_nextObjectIds := Some nxt, x_next_via_gap_bridge := True \<rparr>"
      using e unfolding r_def next_connections_def primary_def[symmetric] nxt_def filtered_def cands_def endM_def
      by (simp add: Let_def split: bool.splits)
    have sub: "set filtered \<subseteq> set cands"
      unfolding filtered_def by (rule bridge_filtered_subset)
    have nset: "set nxt \<subseteq> bc_id ` set filtered"
      using set_take_subset[of 3 "sort_key bc_dM filtered"]
      by (auto simp: nxt_def set_in_order_props)
    have len: "length nxt \<le> 3"
      using set_in_order_props(3)[of "map bc_id (take 3 (sort_key bc_dM filtered))"]
      by (simp add: nxt_def)
    have dis: "distinct nxt" by (simp add: nxt_def set_in_order_props)
    have within: "\<forall>i \<in> set nxt. i \<noteq> oid \<and>
        (\<exists>c \<in> set cands. bc_id c = i \<and> bc_dM c \<le> NODE_GAP_BRIDGE_MAX_M \<and>
           (\<exists>key arr. flowStartsByCell key = Some arr \<and>
              (\<exists>f \<in> set arr. fs_objectId f = i \<and>
                 bc_dM c = sqrt ((fs_mx f - fst endM) * (fs_mx f - fst endM) +
                                 (fs_my f - snd endM) * (fs_my f - snd endM)))))"
    proof
      fix i assume "i \<in> set nxt"
      with nset sub obtain c where c: "c \<in> set cands" "bc_id c = i" by auto
      from bridge_candidates_mem[OF c(1)[unfolded cands_def]] c(2)
      have "i \<noteq> oid \<and> bc_dM c \<le> NODE_GAP_BRIDGE_MAX_M \<and>
           (\<exists>key arr. flowStartsByCell key = Some arr \<and>
              (\<exists>f \<in> set arr. fs_objectId f = i \<and>
                 bc_dM c = sqrt ((fs_mx f - fst endM) * (fs_mx f - fst endM) +
                                 (fs_my f - snd endM) * (fs_my f - snd endM))))" by auto
      with c show "i \<noteq> oid \<and>
        (\<exists>c \<in> set cands. bc_id c = i \<and> bc_dM c \<le> NODE_GAP_BRIDGE_MAX_M \<and>
           (\<exists>key arr. flowStartsByCell key = Some arr \<and>
              (\<exists>f \<in> set arr. fs_objectId f = i \<and>
                 bc_dM c = sqrt ((fs_mx f - fst endM) * (fs_mx f - fst endM) +
                                 (fs_my f - snd endM) * (fs_my f - snd endM)))))"
        by blast
    qed
    have name: "js_truthy (bridge_name props) \<and>
        (\<exists>c \<in> set cands. bridge_name (props_of (byObjectId (bc_id c))) = bridge_name props)
        \<longrightarrow> (\<forall>i \<in> set nxt. bridge_name (props_of (byObjectId i)) = bridge_name props)"
    proof (intro impI ballI)
      fix i
      assume a: "js_truthy (bridge_name props) \<and>
        (\<exists>c \<in> set cands. bridge_name (props_of (byObjectId (bc_id c))) = bridge_name props)"
      assume "i \<in> set nxt"
      with nset obtain c where c: "c \<in> set filtered" "bc_id c = i" by auto
      from bridge_filtered_same_name[of props cands byObjectId c] a c(1)
      have "bridge_name (props_of (byObjectId (bc_id c))) = bridge_name props"
        by (simp add: filtered_def)
      with c(2) show "bridge_name (props_of (byObjectId i)) = bridge_name props" by simp
    qed
    from take_sorted_split[of filtered bc_dM 3]
    have asc: "\<exists>cs rest. mset (cs @ rest) = mset filtered \<and> sorted (map bc_dM (cs @ rest)) \<and>
        length cs = min 3 (length filtered) \<and> nxt = set_in_order (map bc_id cs)"
      unfolding nxt_def by blast
    have c0: "cands \<noteq> []" using e(3) by (simp add: cands_def endM_def)
    have rn: "x_nextObjectIds r = Some nxt" and rf: "x_next_via_gap_bridge r"
      by (simp_all add: req)
    have body: "x_flowEndLL props = Some endPt \<and> x_nextObjectIds r = Some nxt \<and>
        (let endM = flow_end_meters B endPt;
             cands = bridge_candidates flowStartsByCell oid endM;
             filtered = bridge_filtered byObjectId props cands
         in cands \<noteq> [] \<and> length nxt \<le> 3 \<and> distinct nxt \<and>
            (\<forall>i \<in> set nxt. i \<noteq> oid \<and>
               (\<exists>c \<in> set cands. bc_id c = i \<and> bc_dM c \<le> NODE_GAP_BRIDGE_MAX_M \<and>
                       (\<exists>key arr. flowStartsByCell key = Some arr \<and>
                          (\<exists>f \<in> set arr. fs_objectId f = i \<and>
                             bc_dM c = sqrt ((fs_mx f - fst endM) * (fs_mx f - fst endM) +
                                             (fs_my f - snd endM) * (fs_my f - snd endM)))))) \<and>
            (js_truthy (bridge_name props) \<and>
               (\<exists>c \<in> set cands. bridge_name (props_of (byObjectId (bc_id c))) = bridge_name props)
               \<longrightarrow> (\<forall>i \<in> set nxt. bridge_name (props_of (byObjectId i)) = bridge_name props)) \<and>
            (\<exists>cs rest. mset (cs @ rest) = mset filtered \<and> sorted (map bc_dM (cs @ rest)) \<and>
               length cs = min 3 (length filtered) \<and> nxt = set_in_order (map bc_id cs)))"
      unfolding Let_def endM_def[symmetric] cands_def[symmetric] filtered_def[symmetric]
      using e(2) rn c0 len dis within name asc by (intro conjI)
    then have ex: "\<exists>endPt nxt. x_flowEndLL props = Some endPt \<and> x_nextObjectIds r = Some nxt \<and>
        (let endM = flow_end_meters B endPt;
             cands = bridge_candidates flowStartsByCell oid endM;
             filtered = bridge_filtered byObjectId props cands
         in cands \<noteq> [] \<and> length nxt \<le> 3 \<and> distinct nxt \<and>
            (\<forall>i \<in> set nxt. i \<noteq> oid \<and>
               (\<exists>c \<in> set cands. bc_id c = i \<and> bc_dM c \<le> NODE_GAP_BRIDGE_MAX_M \<and>
                       (\<exists>key arr. flowStartsByCell key = Some arr \<and>
                          (\<exists>f \<in> set arr. fs_objectId f = i \<and>
                             bc_dM c = sqrt ((fs_mx f - fst endM) * (fs_mx f - fst endM) +
                                             (fs_my f - snd endM) * (fs_my f - snd endM)))))) \<and>
            (js_truthy (bridge_name props) \<and>
               (\<exists>c \<in> set cands. bridge_name (props_of (byObjectId (bc_id c))) = bridge_name props)
               \<longrightarrow> (\<forall>i \<in> set nxt. bridge_name (props_of (byObjectId i)) = bridge_name props)) \<and>
            (\<exists>cs rest. mset (cs @ rest) = mset filtered \<and> sorted (map bc_dM (cs @ rest)) \<and>
               length cs = min 3 (length filtered) \<and> nxt = set_in_order (map bc_id cs)))"
      by blast
    show ?thesis
      unfolding primary_def[symmetric] r_def[symmetric] Let_def[of r] Let_def[of primary]
      using rf e(1) ex by (intro conjI impI) (simp_all only: simp_thms)
  qed
qed

theorem gap_bridging_witness:
  "\<not> x_next_via_gap_bridge (props_of (bridge_graph 10)) \<and>
   x_next_via_gap_bridge
     (next_connections plane_builtins bridge_index bridge_graph 10 (Some [10]) (props_of (bridge_graph 10))) \<and>
   x_nextObjectIds
     (next_connections plane_builtins bridge_index bridge_graph 10 (Some [10]) (props_of (bridge_graph 10)))
     = Some [12, 13] \<and>
   bridge_candidates bridge_index 10 (100, 100) =
     [\<lparr> bc_id = 11, bc_dM = 3 \<rparr>, \<lparr> bc_id = 12, bc_dM = 5 \<rparr>, \<lparr> bc_id = 13, bc_dM = 40 \<rparr>] \<and>
   js_truthy (bridge_name (props_of (bridge_graph 10))) \<and>
   x_nextObjectIds
     (next_connections plane_builtins bridge_index bridge_graph 10 (Some [10, 14]) (props_of (bridge_graph 10)))
     = Some [14]"
proof -
  have p: "props_of (bridge_graph 10) =
      empty_props\<lparr> x_sewer_name_norm := JStr ''MAIN'', x_flowEndLL := Some (pt 100 100) \<rparr>"
    by (simp add: props_of_def bridge_graph_def bridge_pipe_def)
  have h: "\<not> x_next_via_gap_bridge (props_of (bridge_graph 10))"
    by (simp add: p empty_props_def)
  have m: "flow_end_meters plane_builtins (pt 100 100) = (100, 100)"
    by (simp add: flow_end_meters_def plane_builtins_def pt_def)
  have c: "bridge_candidates bridge_index 10 (100, 100) =
     [\<lparr> bc_id = 11, bc_dM = 3 \<rparr>, \<lparr> bc_id = 12, bc_dM = 5 \<rparr>, \<lparr> bc_id = 13, bc_dM = 40 \<rparr>]"
    by (simp add: bridge_candidates_def nearbyFlowCellKeys_def cell_candidates_def bridge_index_def
        NODE_GAP_BRIDGE_MAX_M_def sqrt_examples)
  have f: "bridge_filtered bridge_graph (props_of (bridge_graph 10))
       [\<lparr> bc_id = 11, bc_dM = 3 \<rparr>, \<lparr> bc_id = 12, bc_dM = 5 \<rparr>, \<lparr> bc_id = 13, bc_dM = 40 \<rparr>] =
     [\<lparr> bc_id = 12, bc_dM = 5 \<rparr>, \<lparr> bc_id = 13, bc_dM = 40 \<rparr>]"
    by (simp add: bridge_filtered_def bridge_name_def props_of_def bridge_graph_def bridge_pipe_def
        empty_props_def js_or_def)
  have n: "next_connections plane_builtins bridge_index bridge_graph 10 (Some [10]) (props_of (bridge_graph 10))
      = (props_of (bridge_graph 10))\<lparr> x_nextObjectIds := Some [12, 13], x_next_via_gap_bridge := True \<rparr>"
    unfolding next_connections_def
    by (simp add: node_match_next_def p m c f[unfolded p] set_in_order_def)
  have n2: "x_nextObjectIds
     (next_connections plane_builtins bridge_index bridge_graph 10 (Some [10, 14]) (props_of (bridge_graph 10)))
     = Some [14]"
    using gap_bridging[where props="props_of (bridge_graph 10)" and B=plane_builtins
        and flowStartsByCell=bridge_index and byObjectId=bridge_graph and oid=10
        and outObjectIds="Some [10, 14]", OF h]
    unfolding next_connections_def
    by (simp add: node_match_next_def)
  from gap_bridging[where props="props_of (bridge_graph 10)" and B=plane_builtins
        and flowStartsByCell=bridge_index and byObjectId=bridge_graph and oid=10
        and outObjectIds="Some [10]", OF h]
  have "x_next_via_gap_bridge
     (next_connections plane_builtins bridge_index bridge_graph 10 (Some [10]) (props_of (bridge_graph 10)))"
    by (simp add: Let_def node_match_next_def p m c)
  moreover have "js_truthy (bridge_name (props_of (bridge_graph 10)))"
    by (simp add: p bridge_name_def js_or_def)
  ultimately show ?thesis using h n n2 c by simp
qed

section \<open>Properties of the speed in pipe mode\<close>

lemma clamp_range: "a \<le> b \<Longrightarrow> a \<le> clamp n a b \<and> clamp n a b \<le> b"
  by (simp add: clamp_def)

lemma speed_band: "PIPE_SPEED_MIN_MPS \<le> PIPE_SPEED_MAX_MPS"
  by (simp add: PIPE_SPEED_MIN_MPS_def PIPE_SPEED_MAX_MPS_def)

lemma buildPipePlanFromObjectId_returns:
  "\<exists>plan. buildPipePlanFromObjectId B startObjectId startPoint byObjectId maxHops = Inr plan"
proof -
  from trace_loop_bound[of "trace_init startObjectId" maxHops B startPoint byObjectId]
  obtain s where "trace_loop B startPoint byObjectId maxHops (trace_init startObjectId) = Inr s"
    by (auto simp: trace_init_def)
  then show ?thesis by (simp add: buildPipePlanFromObjectId_def)
qed

lemma enterPipeMode_cases:
  "enterPipeMode B byObjectId ct = Inr (ModeError ''Pipe network not ready'') \<or>
   (\<exists>pp plan. enterPipeMode B byObjectId ct = Inr (ModePipe pp plan) \<and>
       PIPE_SPEED_MIN_MPS \<le> speedMps pp \<and> speedMps pp \<le> PIPE_SPEED_MAX_MPS \<and>
       segmentVelocityMps pp = speedMps pp)"
proof (cases byObjectId)
  case None
  then show ?thesis by (simp add: enterPipeMode_def Let_def split: option.splits)
next
  case (Some g)
  define contactPoint where "contactPoint = (case ct of None \<Rightarrow> None | Some c \<Rightarrow> contact_point c)"
  define oid where "oid = (case ct of None \<Rightarrow> IdUndefined | Some c \<Rightarrow> pipeObjectId c)"
  show ?thesis
  proof (cases contactPoint)
    case None
    then show ?thesis using Some
      unfolding enterPipeMode_def contactPoint_def[symmetric] oid_def[symmetric]
      by (simp add: Let_def)
  next
    case cp: (Some cp)
    show ?thesis
    proof (cases "oid = IdNull")
      case True
      then show ?thesis using Some cp
        unfolding enterPipeMode_def contactPoint_def[symmetric] oid_def[symmetric]
        by (simp add: Let_def)
    next
      case False
      obtain plan where pl: "buildPipePlanFromObjectId B
          (case oid of IdNum i \<Rightarrow> Some i | _ \<Rightarrow> None) (Some cp) g 2000 = Inr plan"
        using buildPipePlanFromObjectId_returns by blast
      define v where "v = clamp (num_or (toNum B (x_v_half_mps (props_of (get_feature g oid)))) 0)
          PIPE_SPEED_MIN_MPS PIPE_SPEED_MAX_MPS"
      have "enterPipeMode B byObjectId ct =
          Inr (ModePipe \<lparr> objectId = oid, pipe_idx = 1, speedMps = v, segmentVelocityMps = v \<rparr> plan)"
        using Some cp False pl
        unfolding enterPipeMode_def contactPoint_def[symmetric] oid_def[symmetric] v_def
        by (simp add: Let_def)
      moreover have "PIPE_SPEED_MIN_MPS \<le> v \<and> v \<le> PIPE_SPEED_MAX_MPS"
        unfolding v_def by (rule clamp_range[OF speed_band])
      ultimately show ?thesis by simp
    qed
  qed
qed

lemma tick_speed_range:
  assumes "PIPE_SPEED_MIN_MPS \<le> speedMps pp" and "speedMps pp \<le> PIPE_SPEED_MAX_MPS"
  shows "PIPE_SPEED_MIN_MPS \<le> tick_speed B g (Some pp) \<and> tick_speed B g (Some pp) \<le> PIPE_SPEED_MAX_MPS"
proof -
  define speed where "speed = (if speedMps pp \<noteq> 0 then speedMps pp else 0.6)"
  have sp: "PIPE_SPEED_MIN_MPS \<le> speed \<and> speed \<le> PIPE_SPEED_MAX_MPS"
    using assms by (simp add: speed_def PIPE_SPEED_MIN_MPS_def PIPE_SPEED_MAX_MPS_def)
  show ?thesis
  proof (cases "\<exists>gr. g = Some gr \<and> objectId pp \<noteq> IdNull \<and> objectId pp \<noteq> IdUndefined")
    case True
    then obtain gr where "g = Some gr" "objectId pp \<noteq> IdNull" "objectId pp \<noteq> IdUndefined" by blast
    then show ?thesis using clamp_range[OF speed_band] by (simp add: tick_speed_def Let_def)
  next
    case False
    then have "tick_speed B g (Some pp) = speed"
      by (cases g) (auto simp: tick_speed_def speed_def Let_def)
    with sp show ?thesis by simp
  qed
qed

lemma ticks_range:
  "PIPE_SPEED_MIN_MPS \<le> speedMps pp \<Longrightarrow> speedMps pp \<le> PIPE_SPEED_MAX_MPS \<Longrightarrow>
   \<forall>t \<in> set (ticks B pp ts).
     PIPE_SPEED_MIN_MPS \<le> tk_speed t \<and> tk_speed t \<le> PIPE_SPEED_MAX_MPS \<and>
     tk_stepMeters t = tk_speed t * speedMult (tk_speed10x t) * TICK_MS / 1000"
proof (induction ts arbitrary: pp)
  case Nil
  then show ?case by simp
next
  case (Cons a ts)
  obtain g x10 where a: "a = (g, x10)" by (cases a)
  from tick_speed_range[OF Cons.prems, of B g]
  have r: "PIPE_SPEED_MIN_MPS \<le> tick_speed B g (Some pp)" "tick_speed B g (Some pp) \<le> PIPE_SPEED_MAX_MPS"
    by simp_all
  from Cons.IH[of "pp\<lparr>speedMps := tick_speed B g (Some pp)\<rparr>"] r
  show ?case by (simp add: a Let_def stepMeters_def)
qed

text \<open>
  C7. \<open>enterPipeMode\<close> ends in the error mode or in pipe mode, never with an exception.
  The speed it stores lies between 0.2 and 3.0 metres per second, whatever the raw velocity
  of the feature is, and so does the speed every later tick stores, whatever graph is
  loaded at that tick. The speed a tick moves the point with is the stored speed times the
  multiplier of the \<open>speed10x\<close> toggle: it lies between 0.2 and 3.0 metres per second with
  the toggle off, and between 2 and 30 with the toggle on.
\<close>

theorem pipe_speed_clamped:
  "(enterPipeMode B byObjectId ct = Inr (ModeError ''Pipe network not ready'') \<or>
    (\<exists>pp plan. enterPipeMode B byObjectId ct = Inr (ModePipe pp plan) \<and>
       0.2 \<le> speedMps pp \<and> speedMps pp \<le> 3.0 \<and>
       (\<forall>t \<in> set (ticks B pp ts).
          0.2 \<le> tk_speed t \<and> tk_speed t \<le> 3.0 \<and>
          motion_mps t = tk_speed t * (if tk_speed10x t then 10 else 1) \<and>
          (\<not> tk_speed10x t \<longrightarrow> 0.2 \<le> motion_mps t \<and> motion_mps t \<le> 3.0) \<and>
          (tk_speed10x t \<longrightarrow> 2 \<le> motion_mps t \<and> motion_mps t \<le> 30))))"
proof -
  from enterPipeMode_cases[of B byObjectId ct]
  consider "enterPipeMode B byObjectId ct = Inr (ModeError ''Pipe network not ready'')"
    | pp plan where "enterPipeMode B byObjectId ct = Inr (ModePipe pp plan)"
        "PIPE_SPEED_MIN_MPS \<le> speedMps pp" "speedMps pp \<le> PIPE_SPEED_MAX_MPS"
    by blast
  then show ?thesis
  proof cases
    case 1
    then show ?thesis by simp
  next
    case 2
    have "0.2 \<le> tk_speed t \<and> tk_speed t \<le> 3.0 \<and>
          motion_mps t = tk_speed t * (if tk_speed10x t then 10 else 1) \<and>
          (\<not> tk_speed10x t \<longrightarrow> 0.2 \<le> motion_mps t \<and> motion_mps t \<le> 3.0) \<and>
          (tk_speed10x t \<longrightarrow> 2 \<le> motion_mps t \<and> motion_mps t \<le> 30)"
      if "t \<in> set (ticks B pp ts)" for t
    proof -
      from ticks_range[OF 2(2,3), of B ts] that
      have r: "0.2 \<le> tk_speed t" "tk_speed t \<le> 3.0"
        "tk_stepMeters t = tk_speed t * speedMult (tk_speed10x t) * TICK_MS / 1000"
        by (auto simp: PIPE_SPEED_MIN_MPS_def PIPE_SPEED_MAX_MPS_def)
      have m: "motion_mps t = tk_speed t * (if tk_speed10x t then 10 else 1)"
        by (simp add: motion_mps_def r(3) speedMult_def TICK_MS_def)
      show ?thesis using r(1,2) by (simp add: m)
    qed
    then have every: "\<forall>t \<in> set (ticks B pp ts).
          0.2 \<le> tk_speed t \<and> tk_speed t \<le> 3.0 \<and>
          motion_mps t = tk_speed t * (if tk_speed10x t then 10 else 1) \<and>
          (\<not> tk_speed10x t \<longrightarrow> 0.2 \<le> motion_mps t \<and> motion_mps t \<le> 3.0) \<and>
          (tk_speed10x t \<longrightarrow> 2 \<le> motion_mps t \<and> motion_mps t \<le> 30)"
      by blast
    have sp: "0.2 \<le> speedMps pp" "speedMps pp \<le> 3.0"
      using 2(2,3) by (simp_all add: PIPE_SPEED_MIN_MPS_def PIPE_SPEED_MAX_MPS_def)
    from 2(1) sp every show ?thesis by blast
  qed
qed

theorem pipe_speed_clamped_witness:
  "enterPipeMode plane_builtins None (Some (contact_at 2)) = Inr (ModeError ''Pipe network not ready'') \<and>
   enterPipeMode plane_builtins (Some velocity_graph) (Some (contact_at 2)) =
     Inr (ModePipe \<lparr> objectId = IdNum 2, pipe_idx = 1, speedMps = 0.2, segmentVelocityMps = 0.2 \<rparr>
            [pt 0 0.000001, pt 0 0, pt 0 1]) \<and>
   ticks plane_builtins \<lparr> objectId = IdNum 2, pipe_idx = 1, speedMps = 0.2, segmentVelocityMps = 0.2 \<rparr>
     [(Some velocity_graph, False), (None, True),
      (Some (velocity_graph(2 \<mapsto> velocity_pipe (JNum (Fin 1.25)))), True)] =
     [\<lparr> tk_speed10x = False, tk_speed = 0.2, tk_stepMeters = 0.016 \<rparr>,
      \<lparr> tk_speed10x = True, tk_speed = 0.2, tk_stepMeters = 0.16 \<rparr>,
      \<lparr> tk_speed10x = True, tk_speed = 1.25, tk_stepMeters = 1 \<rparr>] \<and>
   motion_mps \<lparr> tk_speed10x = False, tk_speed = 0.2, tk_stepMeters = 0.016 \<rparr> = 0.2 \<and>
   motion_mps \<lparr> tk_speed10x = True, tk_speed = 1.25, tk_stepMeters = 1 \<rparr> = 12.5"
proof -
  let ?pp = "\<lparr> objectId = IdNum 2, pipe_idx = 1, speedMps = 0.2, segmentVelocityMps = 0.2 \<rparr>"
  let ?ts = "[(Some velocity_graph, False), (None, True),
      (Some (velocity_graph(2 \<mapsto> velocity_pipe (JNum (Fin 1.25)))), True)]"
  have n: "enterPipeMode plane_builtins None (Some (contact_at 2)) =
      Inr (ModeError ''Pipe network not ready'')" by code_simp
  have a: "enterPipeMode plane_builtins (Some velocity_graph) (Some (contact_at 2)) =
     Inr (ModePipe ?pp [pt 0 0.000001, pt 0 0, pt 0 1])" by code_simp
  have c: "ticks plane_builtins ?pp ?ts =
     [\<lparr> tk_speed10x = False, tk_speed = 0.2, tk_stepMeters = 0.016 \<rparr>,
      \<lparr> tk_speed10x = True, tk_speed = 0.2, tk_stepMeters = 0.16 \<rparr>,
      \<lparr> tk_speed10x = True, tk_speed = 1.25, tk_stepMeters = 1 \<rparr>]" by code_simp
  from pipe_speed_clamped[where B=plane_builtins and byObjectId="Some velocity_graph"
      and ct="Some (contact_at 2)" and ts="?ts"] a
  have every: "\<forall>t \<in> set (ticks plane_builtins ?pp ?ts).
      motion_mps t = tk_speed t * (if tk_speed10x t then 10 else 1)"
    by simp
  have m1: "motion_mps \<lparr> tk_speed10x = False, tk_speed = 0.2, tk_stepMeters = 0.016 \<rparr> = 0.2"
    using every unfolding c by simp
  have m2: "motion_mps \<lparr> tk_speed10x = True, tk_speed = 1.25, tk_stepMeters = 1 \<rparr> = 12.5"
    using every unfolding c by simp
  from n a c m1 m2 show ?thesis by blast
qed

text \<open>
  The claim as stated fails with the \<open>speed10x\<close> toggle on: a point on a pipe with a raw
  velocity of 7.5 metres per second stores the speed 3.0 and is moved 2.4 metres in a tick
  of 80 milliseconds, that is with 30 metres per second.
\<close>

theorem motion_speed_above_band:
  "enterPipeMode plane_builtins (Some velocity_graph) (Some (contact_at 1)) =
     Inr (ModePipe \<lparr> objectId = IdNum 1, pipe_idx = 1, speedMps = 3, segmentVelocityMps = 3 \<rparr>
            [pt 0 0.000001, pt 0 0, pt 0 1]) \<and>
   ticks plane_builtins \<lparr> objectId = IdNum 1, pipe_idx = 1, speedMps = 3, segmentVelocityMps = 3 \<rparr>
     [(Some velocity_graph, True)] =
     [\<lparr> tk_speed10x = True, tk_speed = 3, tk_stepMeters = 2.4 \<rparr>] \<and>
   motion_mps \<lparr> tk_speed10x = True, tk_speed = 3, tk_stepMeters = 2.4 \<rparr> = 30 \<and>
   \<not> motion_mps \<lparr> tk_speed10x = True, tk_speed = 3, tk_stepMeters = 2.4 \<rparr> \<le> 3.0"
  by code_simp

section \<open>Invert levels and the direction source\<close>



















end
